theory Spec2Isabelle
  imports Main "HOL-Library.AList" "HOL-Library.List_Lexorder" "HOL-Library.Char_ord"
begin

section \<open>JavaScript values\<close>

text \<open>
  The cache stores arbitrary JavaScript values. The fragment modelled here is the one the
  cache engine can tell apart: \<open>undefined\<close>, \<open>null\<close>, booleans, Numbers, BigInts (which
  \<open>JSON.stringify\<close> refuses), strings of 8-bit code units, arrays, and plain objects as
  association lists in property order.

  A Number is an IEEE 754 double. \<open>JNum n\<close> is the Number written as the integer \<open>n\<close>: the
  double nearest to \<open>n\<close>, which is \<open>n\<close> itself below \<open>2^53\<close> in magnitude. \<open>JFrac m j\<close> is
  the Number nearest to \<open>m / 2^j\<close>; it stands for the Numbers that are not integers, in
  lowest terms (\<open>m\<close> odd, \<open>j\<close> positive). \<open>JInfinity neg\<close> is \<open>Infinity\<close> or \<open>-Infinity\<close>.
  \<open>NaN\<close> is left out, and the two zeros are one value.
\<close>

datatype jsval =
    JUndefined
  | JNull
  | JBool bool
  | JNum int
  | JFrac int nat
  | JInfinity bool
  | JBigInt int
  | JStr string
  | JArr "jsval list"
  | JObj "(string \<times> jsval) list"

datatype js_error = TypeError | SyntaxError

datatype 'a outcome = Returns 'a | Throws js_error

subsection \<open>Doubles\<close>

text \<open>
  A finite double of magnitude \<open>m * 2^e\<close> is the pair \<open>(m, e)\<close>; signs are kept apart.
  \<open>nearest_double p q\<close> rounds the fraction \<open>p / q\<close> (\<open>p \<ge> 0\<close>, \<open>q > 0\<close>) to the nearest
  double, ties to the even mantissa: 53 bits of mantissa for a normal number, the fixed
  exponent \<open>-1074\<close> below the normal range, and \<open>None\<close> (an infinity) from \<open>2^1024 - 2^970\<close>
  on.
\<close>

type_synonym double = "int \<times> int"

text \<open>The number of binary digits.\<close>

function blen :: "int \<Rightarrow> nat" where
  "blen n = (if n \<le> 0 then 0 else Suc (blen (n div 2)))"
  by pat_completeness auto

termination
  by (relation "measure nat") auto

declare blen.simps [simp del]

text \<open>The integer \<open>k\<close> with \<open>2^k \<le> p / q < 2^(k + 1)\<close>.\<close>

definition floor_log2 :: "int \<Rightarrow> int \<Rightarrow> int" where
  "floor_log2 p q =
     (let k = int (blen p) - int (blen q)
      in if (if 0 \<le> k then q * 2 ^ nat k \<le> p else q \<le> p * 2 ^ nat (- k)) then k else k - 1)"

definition round_half_even :: "int \<Rightarrow> int \<Rightarrow> int" where
  "round_half_even p q =
     (let f = p div q; r = p mod q
      in if 2 * r < q then f else if q < 2 * r then f + 1 else if even f then f else f + 1)"

definition nearest_double :: "int \<Rightarrow> int \<Rightarrow> double option" where
  "nearest_double p q =
     (if p = 0 then Some (0, 0)
      else
        (let e = max (floor_log2 p q - 52) (- 1074);
             m = (if 0 \<le> e then round_half_even p (q * 2 ^ nat e)
                  else round_half_even (p * 2 ^ nat (- e)) q)
         in if 971 < e \<or> (e = 971 \<and> 9007199254740992 \<le> m) then None else Some (m, e)))"

definition as_fraction :: "double \<Rightarrow> int \<times> int" where
  "as_fraction d =
     (if 0 \<le> snd d then (fst d * 2 ^ nat (snd d), 1) else (fst d, 2 ^ nat (- snd d)))"

definition same_double :: "double \<Rightarrow> double \<Rightarrow> bool" where
  "same_double x y =
     (fst (as_fraction x) * snd (as_fraction y) = fst (as_fraction y) * snd (as_fraction x))"

text \<open>Arithmetic on finite doubles that are not negative: the exact result, rounded.\<close>

definition double_div :: "double \<Rightarrow> double \<Rightarrow> double option" where
  "double_div x y =
     nearest_double (fst (as_fraction x) * snd (as_fraction y))
                    (snd (as_fraction x) * fst (as_fraction y))"

definition double_mul :: "double \<Rightarrow> double \<Rightarrow> double option" where
  "double_mul x y =
     nearest_double (fst (as_fraction x) * fst (as_fraction y))
                    (snd (as_fraction x) * snd (as_fraction y))"

text \<open>The jsval of a double: an integer when it is one, else the fraction in lowest
  terms.\<close>

fun lowest_terms :: "nat \<Rightarrow> int \<Rightarrow> int \<times> nat" where
  "lowest_terms 0 m = (m, 0)"
| "lowest_terms (Suc j) m = (if even m then lowest_terms j (m div 2) else (m, Suc j))"

definition number_value :: "bool \<Rightarrow> double option \<Rightarrow> jsval" where
  "number_value neg d =
     (case d of
        None \<Rightarrow> JInfinity neg
      | Some (m, e) \<Rightarrow>
          (let sm = (if neg then - m else m)
           in if 0 \<le> e then JNum (sm * 2 ^ nat e)
              else (case lowest_terms (nat (- e)) sm of
                      (n, 0) \<Rightarrow> JNum n
                    | (n, Suc j) \<Rightarrow> JFrac n (Suc j))))"

text \<open>Truthiness, as tested by \<open>if (cached)\<close> and by \<open>a || b\<close>.\<close>

fun truthy :: "jsval \<Rightarrow> bool" where
  "truthy JUndefined = False"
| "truthy JNull = False"
| "truthy (JBool b) = b"
| "truthy (JNum n) = (n \<noteq> 0)"
| "truthy (JFrac m j) = (case nearest_double \<bar>m\<bar> (2 ^ j) of None \<Rightarrow> True | Some d \<Rightarrow> fst d \<noteq> 0)"
| "truthy (JInfinity neg) = True"
| "truthy (JBigInt n) = (n \<noteq> 0)"
| "truthy (JStr s) = (s \<noteq> [])"
| "truthy (JArr xs) = True"
| "truthy (JObj kvs) = True"

subsection \<open>Number and string rendering\<close>

definition digit_char :: "nat \<Rightarrow> char" where
  "digit_char d = ''0123456789abcdef'' ! d"

function dec_digits :: "int \<Rightarrow> string" where
  "dec_digits n =
     (if n < 10 then [digit_char (nat n)]
      else dec_digits (n div 10) @ [digit_char (nat (n mod 10))])"
  by pat_completeness auto

termination
  by (relation "measure nat") auto

declare dec_digits.simps [simp del]

definition dec_int :: "int \<Rightarrow> string" where
  "dec_int i = (if i < 0 then CHR ''-'' # dec_digits (- i) else dec_digits i)"

fun join :: "string \<Rightarrow> string list \<Rightarrow> string" where
  "join sep [] = []"
| "join sep [x] = x"
| "join sep (x # y # ys) = x @ sep @ join sep (y # ys)"

text \<open>
  \<open>Number.prototype.toString\<close> for a positive double \<open>d\<close>: the shortest decimal digits
  \<open>s\<close> (\<open>k\<close> of them) and the decimal exponent \<open>n\<close> with \<open>s * 10^(n - k)\<close> reading back as
  \<open>d\<close>, the closest to \<open>d\<close> among the candidates, laid out in plain or in exponent
  notation.
\<close>

fun dec_up :: "nat \<Rightarrow> int \<Rightarrow> int \<Rightarrow> nat \<Rightarrow> nat" where
  "dec_up 0 a b j = j"
| "dec_up (Suc f) a b j = (if a < b * 10 ^ j then j else dec_up f a b (Suc j))"

fun dec_down :: "nat \<Rightarrow> int \<Rightarrow> int \<Rightarrow> nat \<Rightarrow> nat" where
  "dec_down 0 a b j = j"
| "dec_down (Suc f) a b j = (if b \<le> a * 10 ^ j then j else dec_down f a b (Suc j))"

text \<open>The integer \<open>n\<close> with \<open>10^(n - 1) \<le> a / b < 10^n\<close>, for a double \<open>a / b\<close>.\<close>

definition dec_exponent :: "int \<Rightarrow> int \<Rightarrow> int" where
  "dec_exponent a b =
     (if b \<le> a then int (dec_up 400 a b 1) else 1 - int (dec_down 400 a b 1))"

definition reads_as :: "int \<Rightarrow> int \<Rightarrow> double \<Rightarrow> bool" where
  "reads_as s t d =
     (case (if 0 \<le> t then nearest_double (s * 10 ^ nat t) 1
            else nearest_double s (10 ^ nat (- t))) of
        None \<Rightarrow> False
      | Some r \<Rightarrow> same_double r d)"

definition digits_at :: "double \<Rightarrow> int \<Rightarrow> nat \<Rightarrow> int option" where
  "digits_at d n k =
     (let t = n - int k;
          p = (if 0 \<le> t then fst (as_fraction d) else fst (as_fraction d) * 10 ^ nat (- t));
          q = (if 0 \<le> t then snd (as_fraction d) * 10 ^ nat t else snd (as_fraction d));
          lo = p div q;
          hi = lo + 1;
          okl = (10 ^ (k - 1) \<le> lo \<and> lo < 10 ^ k \<and> reads_as lo t d);
          okh = (10 ^ (k - 1) \<le> hi \<and> hi < 10 ^ k \<and> reads_as hi t d)
      in if okl \<and> okh
         then Some (if 2 * (p mod q) < q then lo else if q < 2 * (p mod q) then hi
                    else if even lo then lo else hi)
         else if okl then Some lo
         else if okh then Some hi
         else None)"

fun shortest :: "nat \<Rightarrow> double \<Rightarrow> int \<Rightarrow> nat \<Rightarrow> int \<times> nat" where
  "shortest 0 d n k = (0, k)"
| "shortest (Suc f) d n k =
     (case digits_at d n k of Some s \<Rightarrow> (s, k) | None \<Rightarrow> shortest f d n (Suc k))"

definition digits_of :: "double \<Rightarrow> int \<times> nat \<times> int" where
  "digits_of d =
     (let n = dec_exponent (fst (as_fraction d)) (snd (as_fraction d))
      in if reads_as 1 n d then (1, 1, n + 1)
         else (case shortest 17 d n 1 of (s, k) \<Rightarrow> (s, k, n)))"

definition positive_text :: "double \<Rightarrow> string" where
  "positive_text d =
     (case digits_of d of
        (s, k, n) \<Rightarrow>
          (let ds = dec_digits s
           in if int k \<le> n \<and> n \<le> 21 then ds @ replicate (nat (n - int k)) (CHR ''0'')
              else if 0 < n \<and> n \<le> 21 then take (nat n) ds @ ''.'' @ drop (nat n) ds
              else if - 6 < n \<and> n \<le> 0 then ''0.'' @ replicate (nat (- n)) (CHR ''0'') @ ds
              else (let e = n - 1;
                        es = (if 0 \<le> e then ''+'' else ''-'') @ dec_digits \<bar>e\<bar>
                    in if k = 1 then ds @ ''e'' @ es
                       else hd ds # ''.'' @ tl ds @ ''e'' @ es)))"

text \<open>
  \<open>String(x)\<close> for the Number nearest to \<open>m / 2^j\<close>. An integer below \<open>2^53\<close> in magnitude
  is written with all its digits.
\<close>

definition number_text :: "int \<Rightarrow> nat \<Rightarrow> string" where
  "number_text m j =
     (if j = 0 \<and> \<bar>m\<bar> < 9007199254740992 then dec_int m
      else (case nearest_double \<bar>m\<bar> (2 ^ j) of
              None \<Rightarrow> (if m < 0 then ''-Infinity'' else ''Infinity'')
            | Some d \<Rightarrow>
                if fst d = 0 then ''0''
                else (if m < 0 then ''-'' else []) @ positive_text d))"

text \<open>\<open>String(v)\<close>, the coercion behind template literals and behind \<open>JSON.parse\<close> of a
  non-string argument.\<close>

fun to_string :: "jsval \<Rightarrow> string"
  and to_string_elems :: "jsval list \<Rightarrow> string list" where
  "to_string JUndefined = ''undefined''"
| "to_string JNull = ''null''"
| "to_string (JBool b) = (if b then ''true'' else ''false'')"
| "to_string (JNum n) = number_text n 0"
| "to_string (JFrac m j) = number_text m j"
| "to_string (JInfinity neg) = (if neg then ''-Infinity'' else ''Infinity'')"
| "to_string (JBigInt n) = dec_int n"
| "to_string (JStr s) = s"
| "to_string (JArr xs) = join '','' (to_string_elems xs)"
| "to_string (JObj kvs) = ''[object Object]''"
| "to_string_elems [] = []"
| "to_string_elems (x # xs) =
     (if x = JUndefined \<or> x = JNull then [] else to_string x) # to_string_elems xs"

subsection \<open>\<open>JSON.stringify\<close>\<close>

definition esc_char :: "char \<Rightarrow> string" where
  "esc_char c =
     (if c = CHR 0x22 then [CHR 0x5C, CHR 0x22]
      else if c = CHR 0x5C then [CHR 0x5C, CHR 0x5C]
      else if c = CHR 0x08 then [CHR 0x5C, CHR ''b'']
      else if c = CHR 0x0C then [CHR 0x5C, CHR ''f'']
      else if c = CHR 0x0A then [CHR 0x5C, CHR ''n'']
      else if c = CHR 0x0D then [CHR 0x5C, CHR ''r'']
      else if c = CHR 0x09 then [CHR 0x5C, CHR ''t'']
      else if (of_char c :: nat) < 32
        then [CHR 0x5C, CHR ''u'', CHR ''0'', CHR ''0'',
              digit_char (of_char c div 16), digit_char (of_char c mod 16)]
      else [c])"

definition quote :: "string \<Rightarrow> string" where
  "quote s = CHR 0x22 # concat (map esc_char s) @ [CHR 0x22]"

text \<open>A Number in JSON text: an infinity is written \<open>null\<close>.\<close>

definition json_number :: "int \<Rightarrow> nat \<Rightarrow> string" where
  "json_number m j =
     (if (j = 0 \<and> \<bar>m\<bar> < 9007199254740992) \<or> nearest_double \<bar>m\<bar> (2 ^ j) \<noteq> None
      then number_text m j else ''null'')"

text \<open>
  The serializer proper. \<open>None\<close> is the \<open>TypeError\<close> raised for a BigInt anywhere in the
  value. Inside an array \<open>undefined\<close> is written \<open>null\<close>; a property whose value is
  \<open>undefined\<close> is left out.
\<close>

fun ser :: "jsval \<Rightarrow> string option"
  and ser_elems :: "jsval list \<Rightarrow> string list option"
  and ser_members :: "(string \<times> jsval) list \<Rightarrow> string list option" where
  "ser JUndefined = Some ''null''"
| "ser JNull = Some ''null''"
| "ser (JBool b) = Some (if b then ''true'' else ''false'')"
| "ser (JNum n) = Some (json_number n 0)"
| "ser (JFrac m j) = Some (json_number m j)"
| "ser (JInfinity neg) = Some ''null''"
| "ser (JBigInt n) = None"
| "ser (JStr s) = Some (quote s)"
| "ser (JArr xs) =
     (case ser_elems xs of None \<Rightarrow> None | Some ss \<Rightarrow> Some (''['' @ join '','' ss @ '']''))"
| "ser (JObj kvs) =
     (case ser_members kvs of None \<Rightarrow> None | Some ss \<Rightarrow> Some (''{'' @ join '','' ss @ ''}''))"
| "ser_elems [] = Some []"
| "ser_elems (x # xs) =
     (case ser x of None \<Rightarrow> None
      | Some s \<Rightarrow> (case ser_elems xs of None \<Rightarrow> None | Some ss \<Rightarrow> Some (s # ss)))"
| "ser_members [] = Some []"
| "ser_members ((k, v) # kvs) =
     (if v = JUndefined then ser_members kvs
      else (case ser v of None \<Rightarrow> None
            | Some s \<Rightarrow> (case ser_members kvs of None \<Rightarrow> None
                          | Some ss \<Rightarrow> Some ((quote k @ '':'' @ s) # ss))))"

text \<open>\<open>JSON.stringify(v)\<close>: throws, returns \<open>undefined\<close> (\<open>Inr None\<close>), or returns a string.\<close>

definition JSON_stringify :: "jsval \<Rightarrow> js_error + string option" where
  "JSON_stringify v =
     (if v = JUndefined then Inr None
      else (case ser v of None \<Rightarrow> Inl TypeError | Some s \<Rightarrow> Inr (Some s)))"

subsection \<open>\<open>JSON.parse\<close>\<close>

definition is_ws :: "char \<Rightarrow> bool" where
  "is_ws c = (c = CHR 0x20 \<or> c = CHR 0x09 \<or> c = CHR 0x0A \<or> c = CHR 0x0D)"

definition skip_ws :: "string \<Rightarrow> string" where
  "skip_ws = dropWhile is_ws"

definition is_digit :: "char \<Rightarrow> bool" where
  "is_digit c = (48 \<le> (of_char c :: nat) \<and> (of_char c :: nat) \<le> 57)"

definition digit_val :: "char \<Rightarrow> nat" where
  "digit_val c = of_char c - 48"

definition hex_val :: "char \<Rightarrow> nat option" where
  "hex_val c =
     (let n = (of_char c :: nat) in
      if 48 \<le> n \<and> n \<le> 57 then Some (n - 48)
      else if 97 \<le> n \<and> n \<le> 102 then Some (n - 87)
      else if 65 \<le> n \<and> n \<le> 70 then Some (n - 55)
      else None)"

fun parse_digits :: "string \<Rightarrow> int \<Rightarrow> int \<times> string" where
  "parse_digits [] acc = (acc, [])"
| "parse_digits (c # cs) acc =
     (if is_digit c then parse_digits cs (10 * acc + int (digit_val c)) else (acc, c # cs))"

text \<open>
  A number literal: an optional minus sign, the integer part (\<open>0\<close>, or digits that do not
  start with \<open>0\<close>), an optional fraction (a point and digits) and an optional exponent
  (\<open>e\<close> or \<open>E\<close>, an optional sign, and digits). Its value is the double nearest to the
  number written.
\<close>

definition parse_unsigned :: "string \<Rightarrow> (int \<times> string) option" where
  "parse_unsigned cs =
     (case cs of
        [] \<Rightarrow> None
      | d # r \<Rightarrow>
          if \<not> is_digit d then None
          else if d = CHR ''0'' \<and> (case r of [] \<Rightarrow> False | e # _ \<Rightarrow> is_digit e) then None
          else Some (parse_digits cs 0))"

text \<open>The fraction: the value of its digits, their number, and the rest of the text.\<close>

definition parse_frac :: "string \<Rightarrow> (int \<times> nat \<times> string) option" where
  "parse_frac cs =
     (case cs of
        [] \<Rightarrow> Some (0, 0, cs)
      | c # r \<Rightarrow>
          if c \<noteq> CHR ''.'' then Some (0, 0, cs)
          else (case r of
                  [] \<Rightarrow> None
                | d # _ \<Rightarrow>
                    if \<not> is_digit d then None
                    else (let (n, rest) = parse_digits r 0
                          in Some (n, length r - length rest, rest))))"

definition parse_exp :: "string \<Rightarrow> (int \<times> string) option" where
  "parse_exp cs =
     (case cs of
        [] \<Rightarrow> Some (0, cs)
      | c # r \<Rightarrow>
          if c \<noteq> CHR ''e'' \<and> c \<noteq> CHR ''E'' then Some (0, cs)
          else (let neg = (r \<noteq> [] \<and> hd r = CHR ''-'');
                    r1 = (if r \<noteq> [] \<and> (hd r = CHR ''-'' \<or> hd r = CHR ''+'') then tl r else r)
                in case r1 of
                     [] \<Rightarrow> None
                   | d # _ \<Rightarrow>
                       if \<not> is_digit d then None
                       else (let (n, rest) = parse_digits r1 0
                             in Some (if neg then - n else n, rest))))"

definition parse_num :: "string \<Rightarrow> (jsval \<times> string) option" where
  "parse_num cs =
     (let neg = (cs \<noteq> [] \<and> hd cs = CHR ''-'');
          cs1 = (if neg then tl cs else cs)
      in case parse_unsigned cs1 of
           None \<Rightarrow> None
         | Some (ip, r1) \<Rightarrow>
             (case parse_frac r1 of
                None \<Rightarrow> None
              | Some (fd, fl, r2) \<Rightarrow>
                  (case parse_exp r2 of
                     None \<Rightarrow> None
                   | Some (ex, r3) \<Rightarrow>
                       (let mant = ip * 10 ^ fl + fd;
                            t = ex - int fl
                        in Some (number_value neg
                                   (if 0 \<le> t then nearest_double (mant * 10 ^ nat t) 1
                                    else nearest_double mant (10 ^ nat (- t))),
                                 r3)))))"

text \<open>The body of a string literal, after the opening quote. Strings are of 8-bit code
  units, so an escape \<open>\\u\<close> is read up to \<open>00ff\<close>.\<close>

fun parse_str :: "string \<Rightarrow> string \<Rightarrow> (string \<times> string) option" where
  "parse_str [] acc = None"
| "parse_str (c # cs) acc =
     (if c = CHR 0x22 then Some (acc, cs)
      else if c = CHR 0x5C then
        (case cs of
           [] \<Rightarrow> None
         | e # r \<Rightarrow>
             if e = CHR 0x22 \<or> e = CHR 0x5C \<or> e = CHR ''/'' then parse_str r (acc @ [e])
             else if e = CHR ''b'' then parse_str r (acc @ [CHR 0x08])
             else if e = CHR ''f'' then parse_str r (acc @ [CHR 0x0C])
             else if e = CHR ''n'' then parse_str r (acc @ [CHR 0x0A])
             else if e = CHR ''r'' then parse_str r (acc @ [CHR 0x0D])
             else if e = CHR ''t'' then parse_str r (acc @ [CHR 0x09])
             else if e = CHR ''u'' then
               (case map hex_val (take 4 r) of
                  [Some a, Some b, Some c, Some d] \<Rightarrow>
                    (if a = 0 \<and> b = 0 then parse_str (drop 4 r) (acc @ [char_of (16 * c + d)])
                     else None)
                | _ \<Rightarrow> None)
             else None)
      else if (of_char c :: nat) < 32 then None
      else parse_str cs (acc @ [c]))"

text \<open>
  The properties of an object are listed with the array indices first, in ascending
  order, and the other keys after them in the order of their creation. An array index is
  the decimal text of an integer from 0 to \<open>2^32 - 2\<close>.
\<close>

definition index_val :: "string \<Rightarrow> int" where
  "index_val k = fst (parse_digits k 0)"

definition is_index :: "string \<Rightarrow> bool" where
  "is_index k =
     (k \<noteq> [] \<and> list_all is_digit k \<and> (hd k = CHR ''0'' \<longrightarrow> length k = 1)
      \<and> index_val k < 4294967295)"

fun ins_index :: "string \<Rightarrow> jsval \<Rightarrow> (string \<times> jsval) list \<Rightarrow> (string \<times> jsval) list" where
  "ins_index k v [] = [(k, v)]"
| "ins_index k v (kv # kvs) =
     (if is_index (fst kv) \<and> index_val (fst kv) < index_val k then kv # ins_index k v kvs
      else (k, v) # kv # kvs)"

text \<open>Defining a property: an existing key keeps its place.\<close>

definition obj_put :: "string \<Rightarrow> jsval \<Rightarrow> (string \<times> jsval) list \<Rightarrow> (string \<times> jsval) list" where
  "obj_put k v kvs =
     (if k \<in> fst ` set kvs then AList.update k v kvs
      else if is_index k then ins_index k v kvs
      else kvs @ [(k, v)])"

text \<open>
  Values, array elements and object members. The first argument bounds the number of
  nested calls; every second call at the latest consumes a character, so twice the
  length of the text is enough.
\<close>

fun parse_value :: "nat \<Rightarrow> string \<Rightarrow> (jsval \<times> string) option"
  and parse_elems :: "nat \<Rightarrow> string \<Rightarrow> jsval list \<Rightarrow> (jsval \<times> string) option"
  and parse_members :: "nat \<Rightarrow> string \<Rightarrow> (string \<times> jsval) list \<Rightarrow> (jsval \<times> string) option"
  where
  "parse_value 0 cs = None"
| "parse_value (Suc n) cs =
     (case skip_ws cs of
        [] \<Rightarrow> None
      | c # r \<Rightarrow>
          if c = CHR ''n'' then (if take 3 r = ''ull'' then Some (JNull, drop 3 r) else None)
          else if c = CHR ''t'' then (if take 3 r = ''rue'' then Some (JBool True, drop 3 r) else None)
          else if c = CHR ''f'' then (if take 4 r = ''alse'' then Some (JBool False, drop 4 r) else None)
          else if c = CHR 0x22 then
            (case parse_str r [] of None \<Rightarrow> None | Some (s, r') \<Rightarrow> Some (JStr s, r'))
          else if c = CHR ''['' then
            (case skip_ws r of
               [] \<Rightarrow> None
             | d # r' \<Rightarrow> if d = CHR '']'' then Some (JArr [], r') else parse_elems n r [])
          else if c = CHR ''{'' then
            (case skip_ws r of
               [] \<Rightarrow> None
             | d # r' \<Rightarrow> if d = CHR ''}'' then Some (JObj [], r') else parse_members n r [])
          else parse_num (c # r))"
| "parse_elems 0 cs acc = None"
| "parse_elems (Suc n) cs acc =
     (case parse_value n cs of
        None \<Rightarrow> None
      | Some (v, r) \<Rightarrow>
          (case skip_ws r of
             [] \<Rightarrow> None
           | c # r' \<Rightarrow>
               if c = CHR '','' then parse_elems n r' (acc @ [v])
               else if c = CHR '']'' then Some (JArr (acc @ [v]), r')
               else None))"
| "parse_members 0 cs acc = None"
| "parse_members (Suc n) cs acc =
     (case skip_ws cs of
        [] \<Rightarrow> None
      | q # r \<Rightarrow>
          if q \<noteq> CHR 0x22 then None
          else
            (case parse_str r [] of
               None \<Rightarrow> None
             | Some (k, r1) \<Rightarrow>
                 (case skip_ws r1 of
                    [] \<Rightarrow> None
                  | col # r2 \<Rightarrow>
                      if col \<noteq> CHR '':'' then None
                      else
                        (case parse_value n r2 of
                           None \<Rightarrow> None
                         | Some (v, r3) \<Rightarrow>
                             (case skip_ws r3 of
                                [] \<Rightarrow> None
                              | c # r4 \<Rightarrow>
                                  if c = CHR '','' then parse_members n r4 (obj_put k v acc)
                                  else if c = CHR ''}'' then Some (JObj (obj_put k v acc), r4)
                                  else None)))))"

definition parse_text :: "string \<Rightarrow> js_error + jsval" where
  "parse_text s =
     (case parse_value (2 * length s + 2) s of
        None \<Rightarrow> Inl SyntaxError
      | Some (v, r) \<Rightarrow> if skip_ws r = [] then Inr v else Inl SyntaxError)"

text \<open>\<open>JSON.parse(x)\<close> coerces its argument to a string first.\<close>

definition JSON_parse :: "jsval \<Rightarrow> js_error + jsval" where
  "JSON_parse x = parse_text (to_string x)"

subsection \<open>Values the codec represents\<close>

text \<open>Where an integer literal may end: at the end of the text, or before a character
  that continues neither the digits nor the number.\<close>

definition num_end :: "string \<Rightarrow> bool" where
  "num_end rest =
     (case rest of
        [] \<Rightarrow> True
      | c # cs \<Rightarrow> \<not> is_digit c \<and> c \<noteq> CHR ''.'' \<and> c \<noteq> CHR ''e'' \<and> c \<noteq> CHR ''E'')"

text \<open>Keys in the order in which an object lists them: whenever a key is an array index,
  the key before it is a smaller array index.\<close>

fun ordered_keys :: "string list \<Rightarrow> bool" where
  "ordered_keys [] = True"
| "ordered_keys [k] = True"
| "ordered_keys (k # k' # ks) =
     ((is_index k' \<longrightarrow> is_index k \<and> index_val k < index_val k') \<and> ordered_keys (k' # ks))"

text \<open>
  The JSON-safe values: \<open>null\<close>, booleans, integers below \<open>2^53\<close> in magnitude, strings,
  arrays of JSON-safe values, and objects with distinct keys in property order and
  JSON-safe values. What is left out is what \<open>JSON.stringify\<close> drops, rewrites or refuses
  (\<open>undefined\<close>, the infinities and BigInts), and the other Numbers, which the lemmas
  below do not cover.
\<close>

fun json_safe :: "jsval \<Rightarrow> bool"
  and json_safe_elems :: "jsval list \<Rightarrow> bool"
  and json_safe_members :: "(string \<times> jsval) list \<Rightarrow> bool" where
  "json_safe JUndefined = False"
| "json_safe JNull = True"
| "json_safe (JBool b) = True"
| "json_safe (JNum n) = (\<bar>n\<bar> < 9007199254740992)"
| "json_safe (JFrac m j) = False"
| "json_safe (JInfinity neg) = False"
| "json_safe (JBigInt n) = False"
| "json_safe (JStr s) = True"
| "json_safe (JArr xs) = json_safe_elems xs"
| "json_safe (JObj kvs) =
     (distinct (map fst kvs) \<and> ordered_keys (map fst kvs) \<and> json_safe_members kvs)"
| "json_safe_elems [] = True"
| "json_safe_elems (x # xs) = (json_safe x \<and> json_safe_elems xs)"
| "json_safe_members [] = True"
| "json_safe_members ((k, v) # kvs) = (json_safe v \<and> json_safe_members kvs)"

section \<open>The cache engine: data model\<close>

type_synonym key = string

text \<open>
  Cache items are mutable objects, and a promotion stores in L1 the very object that L2
  holds. So both tiers map keys to addresses of a store; \<open>nextAddr\<close> is the allocator of
  the model (every object literal of the source takes a fresh address).
\<close>

type_synonym addr = nat

datatype tier = L1 | L2

record entry =
  val :: jsval
  compressed :: bool
  expiresAt :: int
  createdAt :: int
  lastAccessed :: int
  accessCount :: nat
  level :: tier
  tags :: "string list"

record counters =
  hits :: nat
  misses :: nat
  sets :: nat
  deletes :: nat
  compressions :: nat
  decompressions :: nat

record config =
  defaultTTL :: int
  maxSize :: nat
  cleanupInterval :: int
  enableCompression :: bool
  compressionThreshold :: int

text \<open>The options of \<open>set\<close>, and an element of the array given to \<open>warmCache\<close>.\<close>

record set_options =
  opt_level :: "tier option"
  opt_tags :: "string list option"
  opt_compress :: "bool option"

definition default_options :: set_options where
  "default_options = \<lparr> opt_level = None, opt_tags = None, opt_compress = None \<rparr>"

record warm_item =
  w_key :: key
  w_value :: jsval
  w_ttl :: "int option"
  w_options :: "set_options option"

text \<open>A JavaScript \<open>Map\<close> iterates in insertion order: an association list, where
  \<open>Map.set\<close> replaces in place or appends, and \<open>size\<close> is the length.\<close>

record cache =
  l1Cache :: "(key \<times> addr) list"
  l2Cache :: "(key \<times> addr) list"
  heap :: "addr \<rightharpoonup> entry"
  nextAddr :: addr
  stats :: counters
  warmingQueue :: "warm_item list"
  isWarming :: bool

definition obj :: "cache \<Rightarrow> addr \<Rightarrow> entry" where
  "obj s a = the (heap s a)"

text \<open>The constructor: \<open>options.x || default\<close>, and \<open>options.enableCompression !== false\<close>.\<close>

record ctor_options =
  opt_defaultTTL :: "int option"
  opt_maxSize :: "nat option"
  opt_cleanupInterval :: "int option"
  opt_enableCompression :: "bool option"
  opt_compressionThreshold :: "int option"

definition or_default :: "'a::zero option \<Rightarrow> 'a \<Rightarrow> 'a" where
  "or_default x d = (case x of None \<Rightarrow> d | Some v \<Rightarrow> if v = 0 then d else v)"

definition new_config :: "ctor_options \<Rightarrow> config" where
  "new_config options =
     \<lparr> defaultTTL = or_default (opt_defaultTTL options) (5 * 60 * 1000),
       maxSize = or_default (opt_maxSize options) 1000,
       cleanupInterval = or_default (opt_cleanupInterval options) (60 * 1000),
       enableCompression = (opt_enableCompression options \<noteq> Some False),
       compressionThreshold = or_default (opt_compressionThreshold options) 1024 \<rparr>"

definition no_options :: ctor_options where
  "no_options = \<lparr> opt_defaultTTL = None, opt_maxSize = None, opt_cleanupInterval = None,
                  opt_enableCompression = None, opt_compressionThreshold = None \<rparr>"

definition new_cache :: cache where
  "new_cache =
     \<lparr> l1Cache = [], l2Cache = [], heap = Map.empty, nextAddr = 0,
       stats = \<lparr> hits = 0, misses = 0, sets = 0, deletes = 0,
                 compressions = 0, decompressions = 0 \<rparr>,
       warmingQueue = [], isWarming = False \<rparr>"

section \<open>The cache engine: operations\<close>

text \<open>
  Every operation is synchronous; \<open>now\<close> is the reading of \<open>Date.now()\<close> during the
  call (one reading per call: the operation completes within a tick of the millisecond
  clock).
\<close>

definition isExpired :: "int \<Rightarrow> entry \<Rightarrow> bool" where
  "isExpired now item = (now > expiresAt item)"

definition compress :: "jsval \<Rightarrow> js_error + jsval" where
  "compress v =
     (case JSON_stringify v of
        Inl e \<Rightarrow> Inl e
      | Inr None \<Rightarrow> Inr JUndefined
      | Inr (Some str) \<Rightarrow> Inr (JStr str))"

definition decompress :: "jsval \<Rightarrow> js_error + jsval" where
  "decompress c = JSON_parse c"

definition delete_op :: "key \<Rightarrow> cache \<Rightarrow> bool \<times> cache" where
  "delete_op k s =
     (let l1Deleted = (map_of (l1Cache s) k \<noteq> None);
          l2Deleted = (map_of (l2Cache s) k \<noteq> None);
          s1 = s\<lparr> l1Cache := AList.delete k (l1Cache s),
                  l2Cache := AList.delete k (l2Cache s) \<rparr>
      in (l1Deleted \<or> l2Deleted,
          if l1Deleted \<or> l2Deleted
          then s1\<lparr> stats := (stats s1)\<lparr> deletes := deletes (stats s1) + 1 \<rparr> \<rparr>
          else s1))"

text \<open>The \<open>forEach\<close> of \<open>evictLRU\<close>: the running pair \<open>(lruKey, lruTime)\<close>, started at
  \<open>(null, Date.now())\<close>.\<close>

definition lru_scan :: "cache \<Rightarrow> int \<Rightarrow> key option \<times> int" where
  "lru_scan s now =
     fold (\<lambda>(k, a) (lruKey, lruTime).
             if lastAccessed (obj s a) < lruTime
             then (Some k, lastAccessed (obj s a))
             else (lruKey, lruTime))
          (l1Cache s) (None, now)"

definition evictLRU :: "config \<Rightarrow> int \<Rightarrow> cache \<Rightarrow> cache" where
  "evictLRU cfg now s =
     (if length (l1Cache s) = 0 then s
      else
        (case fst (lru_scan s now) of
           None \<Rightarrow> s
         | Some lruKey \<Rightarrow>
             if lruKey = [] then s
             else
               (let item = obj s (the (map_of (l1Cache s) lruKey));
                    s1 = s\<lparr> l1Cache := AList.delete lruKey (l1Cache s) \<rparr>
                in if length (l2Cache s1) < maxSize cfg
                   then s1\<lparr> l2Cache := AList.update lruKey (nextAddr s1) (l2Cache s1),
                            heap := (heap s1)(nextAddr s1 \<mapsto> item\<lparr> level := L2 \<rparr>),
                            nextAddr := Suc (nextAddr s1) \<rparr>
                   else s1)))"

text \<open>The first statement of \<open>set\<close>: the size check.\<close>

definition check_size :: "config \<Rightarrow> int \<Rightarrow> cache \<Rightarrow> cache" where
  "check_size cfg now s =
     (if length (l1Cache s) \<ge> maxSize cfg then evictLRU cfg now s else s)"

text \<open>
  The tier a new item goes to. \<open>size >= maxSize * 0.8\<close> is decided in exact arithmetic:
  the double product \<open>maxSize * 0.8\<close> is exact when it is an integer and lies strictly
  between the same two integers as the real product otherwise.
\<close>

definition target_tier :: "config \<Rightarrow> set_options \<Rightarrow> cache \<Rightarrow> tier" where
  "target_tier cfg options s =
     (if opt_level options = Some L2 \<or> 5 * length (l1Cache s) \<ge> 4 * maxSize cfg
      then L2 else L1)"

text \<open>Building the item and storing it in its tier, then counting the set.\<close>

definition store_item ::
  "config \<Rightarrow> int \<Rightarrow> key \<Rightarrow> jsval \<Rightarrow> bool \<Rightarrow> int option \<Rightarrow> set_options \<Rightarrow> cache \<Rightarrow> cache" where
  "store_item cfg now k cacheValue isCompressed ttl options s =
     (let item = \<lparr> val = cacheValue,
                   compressed = isCompressed,
                   expiresAt = now + or_default ttl (defaultTTL cfg),
                   createdAt = now,
                   lastAccessed = now,
                   accessCount = 0,
                   level = (case opt_level options of None \<Rightarrow> L1 | Some l \<Rightarrow> l),
                   tags = (case opt_tags options of None \<Rightarrow> [] | Some ts \<Rightarrow> ts) \<rparr>;
          a = nextAddr s;
          s1 = s\<lparr> heap := (heap s)(a \<mapsto> item), nextAddr := Suc a \<rparr>;
          s2 = (if target_tier cfg options s = L2
                then s1\<lparr> l2Cache := AList.update k a (l2Cache s1) \<rparr>
                else s1\<lparr> l1Cache := AList.update k a (l1Cache s1) \<rparr>)
      in s2\<lparr> stats := (stats s2)\<lparr> sets := sets (stats s2) + 1 \<rparr> \<rparr>)"

text \<open>
  \<open>set(key, value, ttl, options)\<close>. The size of the serialized value is computed outside
  the \<open>try\<close> block: a throwing \<open>JSON.stringify\<close>, or the \<open>.length\<close> of the \<open>undefined\<close> it
  returns, leaves \<open>set\<close> by an exception, after the size check has run.
\<close>

definition set_op ::
  "config \<Rightarrow> int \<Rightarrow> key \<Rightarrow> jsval \<Rightarrow> int option \<Rightarrow> set_options \<Rightarrow> cache
     \<Rightarrow> unit outcome \<times> cache" where
  "set_op cfg now k v ttl options s =
     (let s1 = check_size cfg now s in
      if enableCompression cfg \<and> opt_compress options \<noteq> Some False then
        (case JSON_stringify v of
           Inl e \<Rightarrow> (Throws e, s1)
         | Inr None \<Rightarrow> (Throws TypeError, s1)
         | Inr (Some str) \<Rightarrow>
             if int (length str) > compressionThreshold cfg then
               (case compress v of
                  Inl e \<Rightarrow> (Returns (), store_item cfg now k v False ttl options s1)
                | Inr cv \<Rightarrow>
                    (Returns (),
                     store_item cfg now k cv True ttl options
                       (s1\<lparr> stats := (stats s1)\<lparr> compressions := compressions (stats s1) + 1 \<rparr> \<rparr>)))
             else (Returns (), store_item cfg now k v False ttl options s1))
      else (Returns (), store_item cfg now k v False ttl options s1))"

text \<open>The two assignments at the end of a successful \<open>get\<close>, on the object itself.\<close>

definition touch :: "addr \<Rightarrow> int \<Rightarrow> cache \<Rightarrow> cache" where
  "touch a now s =
     s\<lparr> heap := (heap s)(a \<mapsto> (obj s a)\<lparr> lastAccessed := now,
                                          accessCount := accessCount (obj s a) + 1 \<rparr>) \<rparr>"

text \<open>The probe of \<open>get\<close>: L1, then L2 with promotion of a live L2 item into L1.\<close>

definition probe :: "int \<Rightarrow> key \<Rightarrow> cache \<Rightarrow> addr option \<times> cache" where
  "probe now k s =
     (let item = map_of (l1Cache s) k in
      if item = None \<or> isExpired now (obj s (the item)) then
        (let item2 = map_of (l2Cache s) k in
         if item2 \<noteq> None \<and> \<not> isExpired now (obj s (the item2))
         then (item2, s\<lparr> l1Cache := AList.update k (the item2) (l1Cache s) \<rparr>)
         else (item2, s))
      else (item, s))"

text \<open>\<open>get(key)\<close>; the result \<open>null\<close> is \<open>JNull\<close>.\<close>

definition get_op :: "config \<Rightarrow> int \<Rightarrow> key \<Rightarrow> cache \<Rightarrow> jsval \<times> cache" where
  "get_op cfg now k s =
     (let (item, s1) = probe now k s in
      case item of
        None \<Rightarrow> (JNull, s1\<lparr> stats := (stats s1)\<lparr> misses := misses (stats s1) + 1 \<rparr> \<rparr>)
      | Some a \<Rightarrow>
          if isExpired now (obj s1 a) then
            (JNull,
             snd (delete_op k (s1\<lparr> stats := (stats s1)\<lparr> misses := misses (stats s1) + 1 \<rparr> \<rparr>)))
          else
            (let s2 = s1\<lparr> stats := (stats s1)\<lparr> hits := hits (stats s1) + 1 \<rparr> \<rparr>;
                 item_value = val (obj s2 a)
             in if compressed (obj s2 a) \<and> enableCompression cfg then
                  (case decompress item_value of
                     Inl e \<Rightarrow> (JNull, snd (delete_op k s2))
                   | Inr v \<Rightarrow>
                       (v, touch a now
                             (s2\<lparr> stats := (stats s2)\<lparr> decompressions :=
                                                          decompressions (stats s2) + 1 \<rparr> \<rparr>)))
                else (item_value, touch a now s2)))"

definition clear :: "cache \<Rightarrow> cache" where
  "clear s =
     s\<lparr> l1Cache := [], l2Cache := [],
        stats := (stats s)\<lparr> deletes := deletes (stats s) + sets (stats s) \<rparr> \<rparr>"

subsection \<open>Invalidation, sweeping and warming\<close>

text \<open>
  \<open>invalidatePattern\<close>. The regular expression engine is the runtime's: \<open>compile\<close> maps
  a pattern to the test function of the expression built from it, or to \<open>None\<close> where the
  \<open>RegExp\<close> constructor throws. Deleting from a \<open>Map\<close> inside its \<open>forEach\<close> visits every
  remaining entry once, so each loop is a filter.
\<close>

definition invalidatePattern ::
  "(string \<Rightarrow> (key \<Rightarrow> bool) option) \<Rightarrow> string \<Rightarrow> cache \<Rightarrow> nat outcome \<times> cache" where
  "invalidatePattern compile pattern s =
     (case compile pattern of
        None \<Rightarrow> (Throws SyntaxError, s)
      | Some test \<Rightarrow>
          (let l1 = filter (\<lambda>(k, a). \<not> test k) (l1Cache s);
               l2 = filter (\<lambda>(k, a). \<not> test k) (l2Cache s);
               count = (length (l1Cache s) - length l1) + (length (l2Cache s) - length l2)
           in (Returns count,
               s\<lparr> l1Cache := l1, l2Cache := l2,
                  stats := (stats s)\<lparr> deletes := deletes (stats s) + count \<rparr> \<rparr>)))"

definition has_tag :: "string list \<Rightarrow> entry \<Rightarrow> bool" where
  "has_tag ts item = list_ex (\<lambda>t. t \<in> set ts) (tags item)"

definition invalidateByTags :: "string list \<Rightarrow> cache \<Rightarrow> nat \<times> cache" where
  "invalidateByTags ts s =
     (let l1 = filter (\<lambda>(k, a). \<not> has_tag ts (obj s a)) (l1Cache s);
          l2 = filter (\<lambda>(k, a). \<not> has_tag ts (obj s a)) (l2Cache s);
          count = (length (l1Cache s) - length l1) + (length (l2Cache s) - length l2)
      in (count,
          s\<lparr> l1Cache := l1, l2Cache := l2,
             stats := (stats s)\<lparr> deletes := deletes (stats s) + count \<rparr> \<rparr>))"

text \<open>\<open>cleanup\<close>; \<open>size > maxSize * 0.9\<close> is decided in exact arithmetic, as above.\<close>

definition cleanup :: "config \<Rightarrow> int \<Rightarrow> cache \<Rightarrow> cache" where
  "cleanup cfg now s =
     (let keysToDeleteL1 = map fst (filter (\<lambda>(k, a). isExpired now (obj s a)) (l1Cache s));
          keysToDeleteL2 = map fst (filter (\<lambda>(k, a). isExpired now (obj s a)) (l2Cache s));
          s1 = s\<lparr> l1Cache := fold AList.delete keysToDeleteL1 (l1Cache s),
                  l2Cache := fold AList.delete keysToDeleteL2 (l2Cache s) \<rparr>
      in if 10 * length (l1Cache s1) > 9 * maxSize cfg then evictLRU cfg now s1 else s1)"

text \<open>The two loops of \<open>warmCache\<close>: over the items given, and over the queue.\<close>

fun set_all :: "config \<Rightarrow> int \<Rightarrow> warm_item list \<Rightarrow> cache \<Rightarrow> unit outcome \<times> cache" where
  "set_all cfg now [] s = (Returns (), s)"
| "set_all cfg now (i # rest) s =
     (case set_op cfg now (w_key i) (w_value i) (w_ttl i)
             (case w_options i of None \<Rightarrow> default_options | Some opts \<Rightarrow> opts) s of
        (Throws e, s1) \<Rightarrow> (Throws e, s1)
      | (Returns u, s1) \<Rightarrow> set_all cfg now rest s1)"

fun drain_queue :: "config \<Rightarrow> int \<Rightarrow> warm_item list \<Rightarrow> cache \<Rightarrow> unit outcome \<times> cache" where
  "drain_queue cfg now [] s = (Returns (), s\<lparr> warmingQueue := [] \<rparr>)"
| "drain_queue cfg now (i # rest) s =
     (case set_op cfg now (w_key i) (w_value i) (w_ttl i)
             (case w_options i of None \<Rightarrow> default_options | Some opts \<Rightarrow> opts)
             (s\<lparr> warmingQueue := rest \<rparr>) of
        (Throws e, s1) \<Rightarrow> (Throws e, s1)
      | (Returns u, s1) \<Rightarrow> drain_queue cfg now rest s1)"

text \<open>\<open>warmCache(items)\<close>: the body has no suspension point, so it runs to its end when
  called; an exception of \<open>set\<close> leaves through the \<open>finally\<close> block.\<close>

definition warmCache :: "config \<Rightarrow> int \<Rightarrow> warm_item list \<Rightarrow> cache \<Rightarrow> unit outcome \<times> cache" where
  "warmCache cfg now items s =
     (if isWarming s then (Returns (), s\<lparr> warmingQueue := warmingQueue s @ items \<rparr>)
      else
        (case set_all cfg now items (s\<lparr> isWarming := True \<rparr>) of
           (Throws e, s1) \<Rightarrow> (Throws e, s1\<lparr> isWarming := False \<rparr>)
         | (Returns u, s1) \<Rightarrow>
             (case drain_queue cfg now (warmingQueue s1) s1 of
                (r, s2) \<Rightarrow> (r, s2\<lparr> isWarming := False \<rparr>))))"

subsection \<open>Statistics\<close>

record tier_report =
  rep_size :: nat
  rep_expired :: nat
  rep_active :: nat

record total_report =
  tot_size :: nat
  tot_expired :: nat
  tot_active :: nat
  estimatedSize :: nat

record performance_report =
  perf_hits :: nat
  perf_misses :: nat
  hitRate :: jsval
  perf_sets :: nat
  perf_deletes :: nat
  perf_compressions :: nat
  perf_decompressions :: nat

record stats_report =
  rep_l1 :: tier_report
  rep_l2 :: tier_report
  rep_total :: total_report
  performance :: performance_report

definition getItemSize :: "entry \<Rightarrow> nat" where
  "getItemSize item =
     (case JSON_stringify (val item) of
        Inl e \<Rightarrow> 0
      | Inr None \<Rightarrow> 0
      | Inr (Some str) \<Rightarrow> length str)"

text \<open>
  \<open>x.toFixed(2)\<close> for a finite double \<open>x\<close> from 0 up to \<open>10^21\<close>: the integer \<open>n\<close> for
  which \<open>n / 100\<close> is closest to the exact value of \<open>x\<close>, the larger one of two, written
  with two decimals.
\<close>

definition fixed2 :: "int \<Rightarrow> string" where
  "fixed2 n =
     dec_digits (n div 100) @ ''.''
       @ [digit_char (nat (n mod 100 div 10)), digit_char (nat (n mod 10))]"

definition toFixed2 :: "double \<Rightarrow> string" where
  "toFixed2 x =
     fixed2 ((200 * fst (as_fraction x) + snd (as_fraction x)) div (2 * snd (as_fraction x)))"

text \<open>
  \<open>(hits / total * 100).toFixed(2)\<close>: a division and a multiplication of doubles, each
  rounded to the nearest double, then the rendering. The counters are integers counted
  up from 0, which are doubles as long as they stay below \<open>2^53\<close>.
\<close>

definition percent_text :: "nat \<Rightarrow> nat \<Rightarrow> string" where
  "percent_text h t =
     (case double_div (int h, 0) (int t, 0) of
        None \<Rightarrow> ''Infinity''
      | Some x \<Rightarrow>
          (case double_mul x (100, 0) of
             None \<Rightarrow> ''Infinity''
           | Some y \<Rightarrow> toFixed2 y))"

text \<open>The local \<open>hitRate\<close>: the string from \<open>toFixed\<close>, or the number 0.\<close>

definition hitRate_local :: "counters \<Rightarrow> jsval" where
  "hitRate_local c =
     (if hits c + misses c > 0 then JStr (percent_text (hits c) (hits c + misses c)) else JNum 0)"

definition count_expired :: "cache \<Rightarrow> int \<Rightarrow> (key \<times> addr) list \<Rightarrow> nat" where
  "count_expired s now m = length (filter (\<lambda>(k, a). isExpired now (obj s a)) m)"

definition sum_sizes :: "cache \<Rightarrow> (key \<times> addr) list \<Rightarrow> nat" where
  "sum_sizes s m = sum_list (map (\<lambda>(k, a). getItemSize (obj s a)) m)"

definition getStats :: "int \<Rightarrow> cache \<Rightarrow> stats_report" where
  "getStats now s =
     (let l1Expired = count_expired s now (l1Cache s);
          l2Expired = count_expired s now (l2Cache s);
          totalSize = sum_sizes s (l1Cache s) + sum_sizes s (l2Cache s);
          l1n = length (l1Cache s);
          l2n = length (l2Cache s)
      in \<lparr> rep_l1 = \<lparr> rep_size = l1n, rep_expired = l1Expired, rep_active = l1n - l1Expired \<rparr>,
           rep_l2 = \<lparr> rep_size = l2n, rep_expired = l2Expired, rep_active = l2n - l2Expired \<rparr>,
           rep_total = \<lparr> tot_size = l1n + l2n, tot_expired = l1Expired + l2Expired,
                         tot_active = (l1n + l2n) - (l1Expired + l2Expired),
                         estimatedSize = totalSize \<rparr>,
           performance =
             \<lparr> perf_hits = hits (stats s),
               perf_misses = misses (stats s),
               hitRate = JStr (to_string (hitRate_local (stats s)) @ ''%''),
               perf_sets = sets (stats s),
               perf_deletes = deletes (stats s),
               perf_compressions = compressions (stats s),
               perf_decompressions = decompressions (stats s) \<rparr> \<rparr>)"

subsection \<open>Key derivation and the Express middleware\<close>

definition generateKey :: "string \<Rightarrow> (string \<times> jsval) list \<Rightarrow> key" where
  "generateKey url params =
     (let cacheParams = filter (\<lambda>(k, v). k \<noteq> ''_t'' \<and> k \<noteq> ''timestamp'' \<and> k \<noteq> ''nocache'') params;
          ks = filter (\<lambda>k. map_of cacheParams k \<noteq> Some JUndefined \<and> map_of cacheParams k \<noteq> Some JNull)
                 (sort (map fst cacheParams));
          paramsString = join ''&'' (map (\<lambda>k. k @ ''='' @ to_string (the (map_of cacheParams k))) ks)
      in url @ (if paramsString \<noteq> [] then ''?'' @ paramsString else []))"

record request =
  originalUrl :: string
  query :: "(string \<times> jsval) list"

text \<open>What the client receives: the \<open>X-Cache\<close> header and the JSON body.\<close>

record response =
  x_cache :: string
  body :: jsval

text \<open>The replacement of \<open>res.json\<close> installed on the uncached path, called by the route
  handler with its payload at a later time.\<close>

definition res_json_override ::
  "config \<Rightarrow> int option \<Rightarrow> key \<Rightarrow> int \<Rightarrow> jsval \<Rightarrow> cache \<Rightarrow> response outcome \<times> cache" where
  "res_json_override cfg ttl k now data s =
     (case set_op cfg now k data ttl default_options s of
        (Throws e, s1) \<Rightarrow> (Throws e, s1)
      | (Returns u, s1) \<Rightarrow> (Returns \<lparr> x_cache = ''MISS'', body = data \<rparr>, s1))"

text \<open>
  The middleware for one request. \<open>handler = (t, data)\<close> is the downstream route handler:
  reached through \<open>next()\<close>, it calls \<open>res.json(data)\<close> at time \<open>t\<close>.
\<close>

definition middleware ::
  "config \<Rightarrow> int option \<Rightarrow> request \<Rightarrow> int \<Rightarrow> int \<times> jsval \<Rightarrow> cache \<Rightarrow> response outcome \<times> cache" where
  "middleware cfg ttl req now handler s =
     (let k = generateKey (originalUrl req) (query req);
          (cached, s1) = get_op cfg now k s
      in if truthy cached
         then (Returns \<lparr> x_cache = ''HIT'', body = cached \<rparr>, s1)
         else res_json_override cfg ttl k (fst handler) (snd handler) s1)"


text \<open>
  A cache whose only item, in L1, is marked compressed and holds \<open>undefined\<close>. The values
  of the model have one serialization each; a JavaScript object with a \<open>toJSON\<close> method
  need not. When \<open>toJSON\<close> returns a long string as \<open>set\<close> measures the value and
  \<open>undefined\<close> as \<open>compress\<close> serializes it again, \<open>compress\<close> returns \<open>undefined\<close>, and
  \<open>set\<close> stores that as the item's value with \<open>compressed = true\<close> and counts a
  compression. This is the state after such a \<open>set('k', v, 1000)\<close> at time 0.
\<close>

definition undecodable_cache :: cache where
  "undecodable_cache =
     new_cache\<lparr> l1Cache := [(''k'', 0)],
                heap := [0 \<mapsto> \<lparr> val = JUndefined, compressed = True, expiresAt = 1000,
                                 createdAt = 0, lastAccessed = 0, accessCount = 0,
                                 level = L1, tags = [] \<rparr>],
                nextAddr := 1,
                stats := (stats new_cache)\<lparr> sets := 1, compressions := 1 \<rparr> \<rparr>"

text \<open>A cache after one \<open>set\<close>, three hits and one miss.\<close>

definition three_hits_one_miss :: cache where
  "three_hits_one_miss =
     (let cfg = new_config (no_options\<lparr> opt_maxSize := Some 10 \<rparr>);
          s1 = snd (set_op cfg 0 ''k'' (JNum 1) None default_options new_cache);
          s2 = snd (get_op cfg 1 ''k'' s1);
          s3 = snd (get_op cfg 2 ''k'' s2);
          s4 = snd (get_op cfg 3 ''k'' s3)
      in snd (get_op cfg 4 ''z'' s4))"

section \<open>Auxiliary facts\<close>

subsection \<open>Counters and the parts of the state that operations leave alone\<close>

lemma target_tier_stats [simp]:
  "target_tier cfg options (s\<lparr> stats := c \<rparr>) = target_tier cfg options s"
  by (simp add: target_tier_def)

lemma evictLRU_stats [simp]: "stats (evictLRU cfg now s) = stats s"
  by (simp add: evictLRU_def Let_def split: option.splits)

lemma check_size_stats [simp]: "stats (check_size cfg now s) = stats s"
  by (simp add: check_size_def)

text \<open>What the probe and \<open>delete\<close> leave unchanged.\<close>

lemma probe_heap [simp]: "heap (snd (probe now k s)) = heap s"
  by (simp add: probe_def Let_def)

lemma probe_stats [simp]: "stats (snd (probe now k s)) = stats s"
  by (simp add: probe_def Let_def)

lemma probe_l2 [simp]: "l2Cache (snd (probe now k s)) = l2Cache s"
  by (simp add: probe_def Let_def)

lemma probe_live_in_l1:
  assumes "fst (probe now k s) = Some a" and "\<not> isExpired now (obj s a)"
  shows "map_of (l1Cache (snd (probe now k s))) k = Some a"
  using assms
  by (auto simp add: probe_def Let_def update_conv' split: if_splits)

lemma delete_op_absent:
  "map_of (l1Cache (snd (delete_op k s))) k = None \<and> map_of (l2Cache (snd (delete_op k s))) k = None"
  by (simp add: delete_op_def Let_def delete_conv')

lemma delete_op_stats:
  "stats (snd (delete_op k s)) =
     (if map_of (l1Cache s) k \<noteq> None \<or> map_of (l2Cache s) k \<noteq> None
      then (stats s)\<lparr> deletes := deletes (stats s) + 1 \<rparr> else stats s)"
  by (simp add: delete_op_def Let_def)

text \<open>The counters across \<open>set\<close> and \<open>get\<close>.\<close>

lemma set_op_counters:
  assumes "fst (set_op cfg now k v ttl options s) = Returns ()"
  shows "sets (stats (snd (set_op cfg now k v ttl options s))) = sets (stats s) + 1"
    and "hits (stats (snd (set_op cfg now k v ttl options s))) = hits (stats s)"
    and "misses (stats (snd (set_op cfg now k v ttl options s))) = misses (stats s)"
  using assms
  by (auto simp add: set_op_def store_item_def Let_def split: if_splits sum.splits option.splits)

lemma get_op_sets: "sets (stats (snd (get_op cfg now k s))) = sets (stats s)"
proof -
  obtain item s1 where p: "probe now k s = (item, s1)"
    by (cases "probe now k s")
  have st: "stats s1 = stats s"
    using probe_stats [of now k s] p by simp
  show ?thesis
    using p st
    by (auto simp add: get_op_def Let_def touch_def delete_op_stats
          split: option.splits sum.splits)
qed

lemma set_op_serializable:
  assumes "JSON_stringify v = Inr (Some str)"
  shows "fst (set_op cfg now k v ttl options s) = Returns ()"
  using assms by (simp add: set_op_def Let_def compress_def)

subsection \<open>The size of a map\<close>

text \<open>The size of a \<open>Map\<close> after \<open>Map.set\<close>.\<close>

lemma length_Map_set:
  "length (AList.update k v al) = (if k \<in> fst ` set al then length al else Suc (length al))"
  by (induct al) auto

subsection \<open>A lookup right after an insertion\<close>

text \<open>A \<open>get\<close> right after the item was stored, for an item kept raw and for one that
  was encoded.\<close>

lemma get_after_store_raw:
  assumes tier: "target_tier cfg options s = L1 \<or> map_of (l1Cache s) k = None"
      and live: "now' \<le> now + or_default ttl (defaultTTL cfg)"
      and raw: "\<not> (c \<and> enableCompression cfg)"
  shows "fst (get_op cfg now' k (store_item cfg now k cv c ttl options s)) = cv"
    and "hits (stats (snd (get_op cfg now' k (store_item cfg now k cv c ttl options s))))
           = hits (stats s) + 1"
    and "misses (stats (snd (get_op cfg now' k (store_item cfg now k cv c ttl options s))))
           = misses (stats s)"
  using assms
  by (auto simp add: get_op_def probe_def store_item_def Let_def obj_def isExpired_def
        touch_def update_conv' target_tier_def split: if_splits tier.splits)

lemma get_after_store_compressed:
  assumes tier: "target_tier cfg options s = L1 \<or> map_of (l1Cache s) k = None"
      and live: "now' \<le> now + or_default ttl (defaultTTL cfg)"
      and en: "enableCompression cfg"
      and dec: "decompress cv = Inr v"
  shows "fst (get_op cfg now' k (store_item cfg now k cv True ttl options s)) = v"
    and "hits (stats (snd (get_op cfg now' k (store_item cfg now k cv True ttl options s))))
           = hits (stats s) + 1"
    and "misses (stats (snd (get_op cfg now' k (store_item cfg now k cv True ttl options s))))
           = misses (stats s)"
  using assms
  by (auto simp add: get_op_def probe_def store_item_def Let_def obj_def isExpired_def
        touch_def update_conv' target_tier_def split: if_splits tier.splits)

text \<open>
  \<open>set\<close> followed by \<open>get\<close> of the same key. The new item must be the one the probe
  reaches (it went to L1, or L1 has no item for the key), it must not have expired, and
  where it was encoded the codec must give the value back.
\<close>

lemma set_then_get:
  assumes ret: "fst (set_op cfg now k v ttl options s) = Returns ()"
      and tier: "target_tier cfg options (check_size cfg now s) = L1
                 \<or> map_of (l1Cache (check_size cfg now s)) k = None"
      and live: "now' \<le> now + or_default ttl (defaultTTL cfg)"
      and codec: "\<And>str. \<lbrakk> enableCompression cfg; opt_compress options \<noteq> Some False;
                           JSON_stringify v = Inr (Some str);
                           compressionThreshold cfg < int (length str) \<rbrakk>
                   \<Longrightarrow> JSON_parse (JStr str) = Inr v"
  shows "fst (get_op cfg now' k (snd (set_op cfg now k v ttl options s))) = v
         \<and> hits (stats (snd (get_op cfg now' k (snd (set_op cfg now k v ttl options s)))))
             = hits (stats s) + 1
         \<and> misses (stats (snd (get_op cfg now' k (snd (set_op cfg now k v ttl options s)))))
             = misses (stats s)"
proof (cases "enableCompression cfg \<and> opt_compress options \<noteq> Some False")
  case False
  then have eq: "snd (set_op cfg now k v ttl options s)
                   = store_item cfg now k v False ttl options (check_size cfg now s)"
    by (auto simp add: set_op_def Let_def)
  show ?thesis
    unfolding eq using get_after_store_raw [OF tier live, where c = False and cv = v] by simp
next
  case True
  show ?thesis
  proof (cases "JSON_stringify v")
    case (Inl e)
    with True ret show ?thesis by (simp add: set_op_def Let_def)
  next
    case (Inr r)
    show ?thesis
    proof (cases r)
      case None
      with True Inr ret show ?thesis by (simp add: set_op_def Let_def)
    next
      case (Some str)
      show ?thesis
      proof (cases "compressionThreshold cfg < int (length str)")
        case False
        with True Inr Some
        have eq: "snd (set_op cfg now k v ttl options s)
                    = store_item cfg now k v False ttl options (check_size cfg now s)"
          by (simp add: set_op_def Let_def)
        show ?thesis
          unfolding eq using get_after_store_raw [OF tier live, where c = False and cv = v]
          by simp
      next
        case big: True
        let ?s1 = "check_size cfg now s"
        let ?s2 = "?s1\<lparr> stats := (stats ?s1)\<lparr> compressions := compressions (stats ?s1) + 1 \<rparr> \<rparr>"
        from True Inr Some big
        have eq: "snd (set_op cfg now k v ttl options s)
                    = store_item cfg now k (JStr str) True ttl options ?s2"
          by (simp add: set_op_def Let_def compress_def)
        have dec: "decompress (JStr str) = Inr v"
          using codec [of str] True Inr Some big by (simp add: decompress_def)
        have tier2: "target_tier cfg options ?s2 = L1 \<or> map_of (l1Cache ?s2) k = None"
          using tier by simp
        show ?thesis
          unfolding eq
          using get_after_store_compressed [OF tier2 live _ dec] True by simp
      qed
    qed
  qed
qed

section \<open>Key derivation\<close>

text \<open>The key of the specification's example.\<close>

lemma generateKey_example:
  "generateKey ''/x'' [(''b'', JNum 2), (''a'', JNum 1), (''_t'', JNum 999)] = ''/x?a=1&b=2''"
  "generateKey ''/x'' [(''a'', JNum 1), (''b'', JNum 2)] = ''/x?a=1&b=2''"
  by code_simp+

section \<open>Expired items\<close>

text \<open>A key in neither tier: a miss, and nothing else changes.\<close>

lemma get_absent:
  assumes "map_of (l1Cache s) k = None" and "map_of (l2Cache s) k = None"
  shows "get_op cfg now k s
           = (JNull, s\<lparr> stats := (stats s)\<lparr> misses := misses (stats s) + 1 \<rparr> \<rparr>)"
  using assms by (simp add: get_op_def probe_def Let_def)

text \<open>An expired item in L2, and no live item in L1: a miss, and the key leaves both
  tiers.\<close>

lemma get_expired_item_in_L2:
  assumes l1: "map_of (l1Cache s) k = None \<or> isExpired now (obj s (the (map_of (l1Cache s) k)))"
      and l2: "map_of (l2Cache s) k = Some a2"
      and ex: "isExpired now (obj s a2)"
  shows "fst (get_op cfg now k s) = JNull
         \<and> misses (stats (snd (get_op cfg now k s))) = misses (stats s) + 1
         \<and> hits (stats (snd (get_op cfg now k s))) = hits (stats s)
         \<and> map_of (l1Cache (snd (get_op cfg now k s))) k = None
         \<and> map_of (l2Cache (snd (get_op cfg now k s))) k = None"
proof -
  have p: "probe now k s = (Some a2, s)"
    using l1 l2 ex by (auto simp add: probe_def Let_def)
  have g: "get_op cfg now k s
             = (JNull, snd (delete_op k (s\<lparr> stats := (stats s)\<lparr> misses := misses (stats s) + 1 \<rparr> \<rparr>)))"
    using ex by (simp add: get_op_def p obj_def)
  show ?thesis
    unfolding g using l2 by (simp add: delete_op_absent delete_op_stats)
qed

text \<open>An expired item in L1 and nothing in L2: a miss, and both tiers are as before.\<close>

lemma get_expired_item_in_L1_only:
  assumes l1: "map_of (l1Cache s) k = Some a1"
      and ex: "isExpired now (obj s a1)"
      and l2: "map_of (l2Cache s) k = None"
  shows "get_op cfg now k s
           = (JNull, s\<lparr> stats := (stats s)\<lparr> misses := misses (stats s) + 1 \<rparr> \<rparr>)"
  using assms by (simp add: get_op_def probe_def Let_def)

text \<open>
  Claim C1 on the code: an item is stored in L1 with a ttl of 1000 ms and looked up after
  it has expired, L2 holding nothing for the key. The lookup is a miss and is counted,
  but the expired item is still in L1 afterwards: the variable that held it was
  overwritten by the (empty) result of the L2 lookup before the deletion is decided.
\<close>

theorem get_keeps_expired_L1_item:
  "(let cfg = new_config (no_options\<lparr> opt_maxSize := Some 10 \<rparr>);
        s1 = snd (set_op cfg 0 ''k'' (JNum 1) (Some 1000) default_options new_cache);
        res = get_op cfg 2000 ''k'' s1
    in map_of (l1Cache s1) ''k'' = Some 0
       \<and> isExpired 2000 (obj s1 0)
       \<and> map_of (l2Cache s1) ''k'' = None
       \<and> fst res = JNull
       \<and> misses (stats (snd res)) = misses (stats s1) + 1
       \<and> map_of (l1Cache (snd res)) ''k'' = Some 0)"
  by code_simp

section \<open>The codec on JSON-safe values\<close>

text \<open>Decimal digits and integer literals.\<close>

lemma digit_char_dec:
  assumes "d < 10"
  shows "is_digit (digit_char d)" and "digit_val (digit_char d) = d"
    and "digit_char d \<noteq> CHR ''-''"
    and "d \<noteq> 0 \<Longrightarrow> digit_char d \<noteq> CHR ''0''"
proof -
  from assms have "d = 0 \<or> d = 1 \<or> d = 2 \<or> d = 3 \<or> d = 4 \<or> d = 5 \<or> d = 6 \<or> d = 7
      \<or> d = 8 \<or> d = 9"
    by arith
  then show "is_digit (digit_char d)" and "digit_val (digit_char d) = d"
    and "digit_char d \<noteq> CHR ''-''"
    and "d \<noteq> 0 \<Longrightarrow> digit_char d \<noteq> CHR ''0''"
    by (auto simp add: digit_char_def is_digit_def digit_val_def)
qed

lemma digit_char_hex:
  assumes "d < 16"
  shows "hex_val (digit_char d) = Some d"
proof -
  from assms have "d = 0 \<or> d = 1 \<or> d = 2 \<or> d = 3 \<or> d = 4 \<or> d = 5 \<or> d = 6 \<or> d = 7
      \<or> d = 8 \<or> d = 9 \<or> d = 10 \<or> d = 11 \<or> d = 12 \<or> d = 13 \<or> d = 14 \<or> d = 15"
    by arith
  then show ?thesis
    by (auto simp add: digit_char_def hex_val_def)
qed

lemma parse_digits_append:
  assumes "\<forall>c \<in> set ds. is_digit c"
  shows "parse_digits (ds @ rest) acc
           = parse_digits rest (foldl (\<lambda>a c. 10 * a + int (digit_val c)) acc ds)"
  using assms by (induction ds arbitrary: acc) simp_all

lemma parse_digits_stop:
  assumes "num_end rest"
  shows "parse_digits rest acc = (acc, rest)"
  using assms by (cases rest) (simp_all add: num_end_def)

lemma dec_digits_digits: "\<forall>c \<in> set (dec_digits n). is_digit c"
proof (induction n rule: dec_digits.induct)
  case (1 n)
  show ?case
  proof (cases "n < 10")
    case True
    then have "nat n < 10" by simp
    with True show ?thesis
      by (subst dec_digits.simps) (simp add: digit_char_dec)
  next
    case False
    then have "nat (n mod 10) < 10" by simp
    with False "1.IH" show ?thesis
      by (subst dec_digits.simps) (simp add: digit_char_dec)
  qed
qed

lemma dec_digits_value:
  assumes "0 \<le> n"
  shows "foldl (\<lambda>a c. 10 * a + int (digit_val c)) acc (dec_digits n)
           = acc * 10 ^ length (dec_digits n) + n"
  using assms
proof (induction n arbitrary: acc rule: dec_digits.induct)
  case (1 n)
  show ?case
  proof (cases "n < 10")
    case True
    then have "nat n < 10" by simp
    with True "1.prems" show ?thesis
      by (subst (1 2) dec_digits.simps) (simp add: digit_char_dec)
  next
    case False
    then have m: "nat (n mod 10) < 10" and p: "0 \<le> n div 10" by simp_all
    have "foldl (\<lambda>a c. 10 * a + int (digit_val c)) acc (dec_digits n)
            = 10 * foldl (\<lambda>a c. 10 * a + int (digit_val c)) acc (dec_digits (n div 10))
              + n mod 10"
      using False m by (subst dec_digits.simps) (simp add: digit_char_dec)
    also have "\<dots> = 10 * (acc * 10 ^ length (dec_digits (n div 10)) + n div 10) + n mod 10"
      using "1.IH" [OF False p] by simp
    also have "\<dots> = acc * 10 ^ (length (dec_digits (n div 10)) + 1) + n"
      by (simp add: algebra_simps)
    also have "length (dec_digits (n div 10)) + 1 = length (dec_digits n)"
      using False by (subst (2) dec_digits.simps) simp
    finally show ?thesis .
  qed
qed

lemma dec_digits_nonempty: "dec_digits n \<noteq> []"
  by (subst dec_digits.simps) simp

lemma dec_digits_leading_zero:
  assumes "dec_digits n = d # r" and "d = CHR ''0''" and "0 \<le> n"
  shows "n = 0"
  using assms
proof (induction n arbitrary: r rule: dec_digits.induct)
  case (1 n)
  show ?case
  proof (cases "n < 10")
    case True
    with "1.prems" have "digit_char (nat n) = CHR ''0''"
      by (subst (asm) dec_digits.simps) simp
    moreover have "nat n < 10" using True by simp
    ultimately have "nat n = 0"
      using digit_char_dec(4) [of "nat n"] by auto
    with "1.prems"(3) show ?thesis by simp
  next
    case False
    obtain d0 r0 where h: "dec_digits (n div 10) = d0 # r0"
      using dec_digits_nonempty [of "n div 10"] by (cases "dec_digits (n div 10)") auto
    with False "1.prems"(1) have "d0 = d"
      by (subst (asm) dec_digits.simps) simp
    with h have h': "dec_digits (n div 10) = d # r0" by simp
    have p: "0 \<le> n div 10" using False by simp
    from "1.IH" [OF False h' "1.prems"(2) p] have "n div 10 = 0" .
    with False show ?thesis by simp
  qed
qed

lemma parse_unsigned_dec:
  assumes "0 \<le> n" and "num_end rest"
  shows "parse_unsigned (dec_digits n @ rest) = Some (n, rest)"
proof -
  obtain d r where dr: "dec_digits n = d # r"
    using dec_digits_nonempty [of n] by (cases "dec_digits n") auto
  have dig: "is_digit d"
    using dec_digits_digits [of n] dr by simp
  have lead: "\<not> (d = CHR ''0'' \<and> (case r @ rest of [] \<Rightarrow> False | e # _ \<Rightarrow> is_digit e))"
  proof
    assume a: "d = CHR ''0'' \<and> (case r @ rest of [] \<Rightarrow> False | e # _ \<Rightarrow> is_digit e)"
    then have "n = 0" using dec_digits_leading_zero [OF dr _ assms(1)] by simp
    then have "r = []" using dr by (subst (asm) dec_digits.simps) simp
    with a assms(2) show False by (cases rest) (simp_all add: num_end_def)
  qed
  have pd: "parse_digits (dec_digits n @ rest) 0 = (n, rest)"
    using parse_digits_append [OF dec_digits_digits, of n rest 0] dec_digits_value [OF assms(1), of 0]
      parse_digits_stop [OF assms(2)] by simp
  show ?thesis
    using dig lead pd unfolding parse_unsigned_def dr [symmetric]
    by (simp add: dr)
qed

lemma parse_frac_end:
  assumes "num_end rest"
  shows "parse_frac rest = Some (0, 0, rest)"
  using assms by (cases rest) (simp_all add: num_end_def parse_frac_def)

lemma parse_exp_end:
  assumes "num_end rest"
  shows "parse_exp rest = Some (0, rest)"
  using assms by (cases rest) (simp_all add: num_end_def parse_exp_def)

text \<open>An integer below \<open>2^53\<close> is a double: rounding it to the nearest double changes
  nothing.\<close>

lemma blen_le:
  assumes "n < 2 ^ j"
  shows "blen n \<le> j"
  using assms
proof (induction j arbitrary: n)
  case 0
  then show ?case by (subst blen.simps) simp
next
  case (Suc j)
  show ?case
  proof (cases "n \<le> 0")
    case True
    then show ?thesis by (subst blen.simps) simp
  next
    case False
    from Suc.prems have "n div 2 < 2 ^ j" by simp
    then have "blen (n div 2) \<le> j" by (rule Suc.IH)
    with False show ?thesis by (subst blen.simps) simp
  qed
qed

lemma blen_1: "blen 1 = 1"
  by (simp add: blen.simps)

lemma floor_log2_int:
  assumes "p < 9007199254740992"
  shows "floor_log2 p 1 \<le> 52"
proof -
  have "p < 2 ^ 53" using assms by simp
  then have "blen p \<le> 53" by (rule blen_le)
  then show ?thesis
    by (simp add: floor_log2_def Let_def blen_1)
qed

lemma round_half_even_1: "round_half_even p 1 = p"
  by (simp add: round_half_even_def)

lemma nearest_double_int:
  assumes "0 \<le> p" and "p < 9007199254740992"
  shows "\<exists>j. nearest_double p 1 = Some (p * 2 ^ j, - int j)"
proof (cases "p = 0")
  case True
  then have "nearest_double p 1 = Some (p * 2 ^ 0, - int 0)"
    by (simp add: nearest_double_def)
  then show ?thesis by blast
next
  case False
  define e where "e = max (floor_log2 p 1 - 52) (- 1074)"
  have e: "e \<le> 0"
    using floor_log2_int [OF assms(2)] by (simp add: e_def)
  have "nearest_double p 1 = Some (p * 2 ^ nat (- e), - int (nat (- e)))"
  proof (cases "e = 0")
    case True
    then show ?thesis
      using False unfolding nearest_double_def Let_def e_def [symmetric]
      by (simp add: round_half_even_1)
  next
    case F: False
    with e have "e < 0" by simp
    then show ?thesis
      using False unfolding nearest_double_def Let_def e_def [symmetric]
      by (simp add: round_half_even_1)
  qed
  then show ?thesis by blast
qed

lemma lowest_terms_pow: "lowest_terms j (n * 2 ^ j) = (n, 0)"
  by (induction j) simp_all

lemma number_value_int:
  "number_value neg (Some (p * 2 ^ j, - int j)) = JNum (if neg then - p else p)"
proof (cases "j = 0")
  case True
  then show ?thesis by (simp add: number_value_def)
next
  case False
  then have e: "\<not> 0 \<le> - int j" by simp
  have n: "nat (- (- int j)) = j" by simp
  show ?thesis
  proof (cases neg)
    case True
    have "lowest_terms j (- p * 2 ^ j) = (- p, 0)"
      by (rule lowest_terms_pow)
    then have "lowest_terms j (- (p * 2 ^ j)) = (- p, 0)" by simp
    then show ?thesis
      unfolding number_value_def using True e by (simp add: n)
  next
    case F: False
    have "lowest_terms j (p * 2 ^ j) = (p, 0)"
      by (rule lowest_terms_pow)
    then show ?thesis
      unfolding number_value_def using F e by (simp add: n)
  qed
qed

lemma dec_int_head:
  "\<exists>d r. dec_int i = d # r \<and> (d = CHR ''-'' \<or> is_digit d)"
proof (cases "i < 0")
  case True
  then show ?thesis by (simp add: dec_int_def)
next
  case False
  obtain d r where dr: "dec_digits i = d # r"
    using dec_digits_nonempty [of i] by (cases "dec_digits i") auto
  then have "is_digit d"
    using dec_digits_digits [of i] by simp
  with False dr show ?thesis by (simp add: dec_int_def)
qed

lemma parse_num_dec:
  assumes "\<bar>i\<bar> < 9007199254740992" and "num_end rest"
  shows "parse_num (dec_int i @ rest) = Some (JNum i, rest)"
proof (cases "i < 0")
  case True
  then have p: "0 \<le> - i" "- i < 9007199254740992"
    using assms(1) by simp_all
  obtain j where nd: "nearest_double (- i) 1 = Some (- i * 2 ^ j, - int j)"
    using nearest_double_int [OF p] by blast
  have pu: "parse_unsigned (dec_digits (- i) @ rest) = Some (- i, rest)"
    by (rule parse_unsigned_dec [OF p(1) assms(2)])
  show ?thesis
    using True pu parse_frac_end [OF assms(2)] parse_exp_end [OF assms(2)] nd
      number_value_int [of True "- i" j]
    by (simp add: dec_int_def parse_num_def)
next
  case False
  then have p: "0 \<le> i" "i < 9007199254740992"
    using assms(1) by simp_all
  obtain j where nd: "nearest_double i 1 = Some (i * 2 ^ j, - int j)"
    using nearest_double_int [OF p] by blast
  obtain d r where dr: "dec_digits i = d # r"
    using dec_digits_nonempty [of i] by (cases "dec_digits i") auto
  then have "is_digit d"
    using dec_digits_digits [of i] by simp
  then have nm: "d \<noteq> CHR ''-''"
    by (auto simp add: is_digit_def)
  have pu: "parse_unsigned (d # r @ rest) = Some (i, rest)"
    using parse_unsigned_dec [OF p(1) assms(2)] dr by simp
  show ?thesis
    using False nm dr pu parse_frac_end [OF assms(2)] parse_exp_end [OF assms(2)] nd
      number_value_int [of False i j]
    by (simp add: dec_int_def parse_num_def)
qed

lemma ser_int:
  assumes "\<bar>n\<bar> < 9007199254740992"
  shows "ser (JNum n) = Some (dec_int n)"
  using assms by (simp add: json_number_def number_text_def)


lemma parse_str_esc: "parse_str (esc_char c @ tail) acc = parse_str tail (acc @ [c])"
proof -
  have hex: "hex_val (digit_char (of_char c div 16)) = Some (of_char c div 16)"
       "hex_val (digit_char (of_char c mod 16)) = Some (of_char c mod 16)"
    if "(of_char c :: nat) < 32"
    using that by (simp_all add: digit_char_hex)
  have z: "hex_val (CHR ''0'') = Some 0"
    by (simp add: hex_val_def)
  show ?thesis
    using hex z by (simp add: esc_char_def)
qed

lemma parse_str_quote:
  "parse_str (concat (map esc_char s) @ CHR 0x22 # rest) acc = Some (acc @ s, rest)"
  by (induction s arbitrary: acc) (simp_all add: parse_str_esc)


lemma skip_ws_start:
  assumes "\<not> is_ws c"
  shows "skip_ws (c # cs) = c # cs"
  using assms by (simp add: skip_ws_def)

lemma join_Cons:
  assumes "ss \<noteq> []"
  shows "join sep (s # ss) = s @ sep @ join sep ss"
  using assms by (cases ss) simp_all

text \<open>A new key that comes last in property order is appended.\<close>

lemma ordered_keys_prefix:
  assumes "ordered_keys (xs @ ys)"
  shows "ordered_keys xs"
  using assms
proof (induction xs rule: ordered_keys.induct)
  case (2 k)
  then show ?case by simp
next
  case (3 k k' ks)
  then show ?case by simp
qed simp

lemma ordered_keys_last:
  assumes "ordered_keys (ks @ [k])" and "is_index k"
  shows "\<forall>x \<in> set ks. is_index x \<and> index_val x < index_val k"
  using assms
proof (induction ks rule: ordered_keys.induct)
  case (2 x)
  then show ?case by simp
next
  case (3 x x' xs)
  from "3.prems" have o: "ordered_keys ((x' # xs) @ [k])"
    and s: "is_index x' \<longrightarrow> is_index x \<and> index_val x < index_val x'"
    by simp_all
  have ih: "\<forall>y \<in> set (x' # xs). is_index y \<and> index_val y < index_val k"
    by (rule "3.IH" [OF o "3.prems"(2)])
  then have "is_index x'" and "index_val x' < index_val k" by simp_all
  with s have "is_index x \<and> index_val x < index_val k" by simp
  with ih show ?case by simp
qed simp

lemma ins_index_last:
  assumes "\<forall>kv \<in> set acc. is_index (fst kv) \<and> index_val (fst kv) < index_val k"
  shows "ins_index k v acc = acc @ [(k, v)]"
  using assms by (induction acc) simp_all

lemma obj_put_fresh:
  assumes "k \<notin> fst ` set acc" and "ordered_keys (map fst acc @ [k])"
  shows "obj_put k v acc = acc @ [(k, v)]"
proof (cases "is_index k")
  case True
  have "\<forall>x \<in> set (map fst acc). is_index x \<and> index_val x < index_val k"
    by (rule ordered_keys_last [OF assms(2) True])
  then have "ins_index k v acc = acc @ [(k, v)]"
    by (intro ins_index_last) simp
  with assms(1) True show ?thesis by (simp add: obj_put_def)
next
  case False
  with assms(1) show ?thesis by (simp add: obj_put_def)
qed

lemma char_neq:
  assumes "(of_char a :: nat) \<noteq> of_char b"
  shows "a \<noteq> b"
  using assms by auto

lemma digit_not_structural:
  assumes "is_digit d"
  shows "\<not> is_ws d" and "d \<noteq> CHR '']''" and "d \<noteq> CHR ''}''" and "d \<noteq> CHR ''n''"
    and "d \<noteq> CHR ''t''" and "d \<noteq> CHR ''f''" and "d \<noteq> CHR 0x22" and "d \<noteq> CHR ''[''"
    and "d \<noteq> CHR ''{''" and "d \<noteq> CHR ''-''"
proof -
  have r: "48 \<le> (of_char d :: nat)" "(of_char d :: nat) \<le> 57"
    using assms by (simp_all add: is_digit_def)
  have "d \<noteq> CHR 0x20" "d \<noteq> CHR 0x09" "d \<noteq> CHR 0x0A" "d \<noteq> CHR 0x0D"
    by (rule char_neq, use r in simp)+
  then show "\<not> is_ws d"
    by (simp add: is_ws_def)
  show "d \<noteq> CHR '']''" and "d \<noteq> CHR ''}''" and "d \<noteq> CHR ''n''"
    and "d \<noteq> CHR ''t''" and "d \<noteq> CHR ''f''" and "d \<noteq> CHR 0x22" and "d \<noteq> CHR ''[''"
    and "d \<noteq> CHR ''{''" and "d \<noteq> CHR ''-''"
    by (rule char_neq, use r in simp)+
qed

text \<open>The text of a value starts with a character that is neither white space nor a
  closing bracket.\<close>

lemma value_start:
  assumes "ser v = Some s" and "json_safe v"
  shows "\<exists>c r. s = c # r \<and> \<not> is_ws c \<and> c \<noteq> CHR '']'' \<and> c \<noteq> CHR ''}''"
proof (cases v)
  case (JNum i)
  obtain d r where dr: "dec_int i = d # r" and dd: "d = CHR ''-'' \<or> is_digit d"
    using dec_int_head [of i] by blast
  have c: "\<not> is_ws d \<and> d \<noteq> CHR '']'' \<and> d \<noteq> CHR ''}''"
  proof (cases "is_digit d")
    case True
    then show ?thesis
      by (intro conjI) (rule digit_not_structural, assumption)+
  next
    case False
    with dd have "d = CHR ''-''" by simp
    then show ?thesis by (simp add: is_ws_def)
  qed
  have "ser (JNum i) = Some (dec_int i)"
    using assms(2) JNum by (intro ser_int) simp
  then have "s = d # r"
    using assms(1) JNum dr by simp
  with c show ?thesis by blast
next
  case (JArr xs)
  with assms(1) show ?thesis
    by (auto simp add: is_ws_def split: option.splits)
next
  case (JObj kvs)
  with assms(1) show ?thesis
    by (auto simp add: is_ws_def split: option.splits)
qed (use assms in \<open>auto simp add: is_ws_def quote_def split: if_splits\<close>)

lemma ser_elems_length:
  assumes "ser_elems xs = Some ss"
  shows "length ss = length xs"
  using assms by (induction xs arbitrary: ss) (auto split: option.splits)

lemma ser_members_length:
  assumes "ser_members kvs = Some ss" and "json_safe_members kvs"
  shows "length ss = length kvs"
  using assms by (induction kvs arbitrary: ss) (auto split: option.splits if_splits)


lemma num_end_structural:
  "num_end (CHR '','' # cs)" "num_end (CHR '']'' # cs)" "num_end (CHR ''}'' # cs)" "num_end []"
  by (simp_all add: num_end_def is_digit_def)

lemma skip_ws_structural:
  "skip_ws (CHR '','' # cs) = CHR '','' # cs" "skip_ws (CHR '']'' # cs) = CHR '']'' # cs"
  "skip_ws (CHR ''}'' # cs) = CHR ''}'' # cs" "skip_ws (CHR '':'' # cs) = CHR '':'' # cs"
  "skip_ws (CHR ''['' # cs) = CHR ''['' # cs" "skip_ws (CHR ''{'' # cs) = CHR ''{'' # cs"
  "skip_ws (CHR 0x22 # cs) = CHR 0x22 # cs" "skip_ws [] = []"
  by (simp_all add: skip_ws_def is_ws_def)

text \<open>
  Parsing the text of a value gives the value back, and likewise for the elements of an
  array up to the closing bracket and for the members of an object up to the closing
  brace, with fuel twice the length of the text.
\<close>

lemma parse_ser:
  shows "\<lbrakk> json_safe v; ser v = Some s; 2 * length s \<le> n; num_end rest \<rbrakk>
           \<Longrightarrow> parse_value n (s @ rest) = Some (v, rest)"
    and "\<lbrakk> json_safe_elems xs; xs \<noteq> []; ser_elems xs = Some ss;
            2 * length (join '','' ss) + 1 \<le> n \<rbrakk>
           \<Longrightarrow> parse_elems n (join '','' ss @ CHR '']'' # rest) acc = Some (JArr (acc @ xs), rest)"
    and "\<lbrakk> json_safe_members kvs; kvs \<noteq> []; distinct (map fst kvs);
            fst ` set macc \<inter> fst ` set kvs = {}; ser_members kvs = Some ss;
            2 * length (join '','' ss) + 1 \<le> n; ordered_keys (map fst (macc @ kvs)) \<rbrakk>
           \<Longrightarrow> parse_members n (join '','' ss @ CHR ''}'' # rest) macc
                 = Some (JObj (macc @ kvs), rest)"
proof (induction v and xs and kvs arbitrary: s n rest and ss n rest acc and ss n rest macc
         rule: ser_ser_elems_ser_members.induct)
  case 1
  then show ?case by simp
next
  case 2
  then have s: "s = ''null''" by simp
  with 2 obtain m where n: "n = Suc m" by (cases n) auto
  show ?case
    unfolding s n by (simp add: skip_ws_def is_ws_def)
next
  case (3 b)
  then have s: "s = (if b then ''true'' else ''false'')" by simp
  with 3 obtain m where n: "n = Suc m" by (cases n) (auto split: if_splits)
  show ?case
    unfolding s n by (cases b) (simp_all add: skip_ws_def is_ws_def)
next
  case (4 i)
  then have safe: "\<bar>i\<bar> < 9007199254740992" by simp
  from "4.prems"(2) ser_int [OF safe] have s: "s = dec_int i" by simp
  obtain d r where dr: "dec_int i = d # r" and dd: "d = CHR ''-'' \<or> is_digit d"
    using dec_int_head [of i] by blast
  from 4 s dr obtain m where n: "n = Suc m" by (cases n) auto
  have sk: "skip_ws (d # r @ rest) = d # r @ rest"
    using dd digit_not_structural(1) [of d] by (auto simp add: skip_ws_def is_ws_def)
  have nd: "d \<noteq> CHR ''n'' \<and> d \<noteq> CHR ''t'' \<and> d \<noteq> CHR ''f'' \<and> d \<noteq> CHR 0x22
            \<and> d \<noteq> CHR ''['' \<and> d \<noteq> CHR ''{''"
  proof (cases "is_digit d")
    case True
    then show ?thesis
      by (intro conjI) (rule digit_not_structural, assumption)+
  next
    case False
    with dd show ?thesis by simp
  qed
  have pn: "parse_num (d # r @ rest) = Some (JNum i, rest)"
    using parse_num_dec [OF safe "4.prems"(4)] dr by simp
  show ?case
    unfolding s n dr using sk nd pn by simp
next
  case 5
  then show ?case by simp
next
  case 6
  then show ?case by simp
next
  case 7
  then show ?case by simp
next
  case (8 str)
  then have s: "s = CHR 0x22 # concat (map esc_char str) @ [CHR 0x22]"
    by (simp add: quote_def)
  with 8 obtain m where n: "n = Suc m" by (cases n) auto
  have ps: "parse_str (concat (map esc_char str) @ CHR 0x22 # rest) [] = Some (str, rest)"
    using parse_str_quote [of str rest "[]"] by simp
  show ?case
    unfolding s n using ps by (simp add: skip_ws_structural)
next
  case (9 xs)
  from "9.prems"(2) obtain ss where ss: "ser_elems xs = Some ss"
      and s: "s = CHR ''['' # join '','' ss @ [CHR '']'']"
    by (auto split: option.splits)
  from "9.prems"(3) s obtain m where n: "n = Suc m" and m: "2 * length (join '','' ss) + 1 \<le> m"
    by (cases n) auto
  show ?case
  proof (cases xs)
    case Nil
    with ss have "ss = []" by simp
    then show ?thesis
      unfolding s n Nil by (simp add: skip_ws_structural)
  next
    case (Cons x xs')
    with ss obtain s1 ss' where s1: "ser x = Some s1" and sss: "ss = s1 # ss'"
      by (auto split: option.splits)
    have sx: "json_safe x"
      using "9.prems"(1) Cons by simp
    obtain c r where cr: "s1 = c # r" and c: "\<not> is_ws c" "c \<noteq> CHR '']''"
      using value_start [OF s1 sx] by blast
    have "\<exists>r'. join '','' ss = c # r'"
      unfolding sss cr by (cases ss') simp_all
    then obtain r' where j: "join '','' ss = c # r'" by blast
    have sk: "skip_ws (join '','' ss @ CHR '']'' # rest) = join '','' ss @ CHR '']'' # rest"
      unfolding j using skip_ws_start [OF c(1)] by simp
    have pe: "parse_elems m (join '','' ss @ CHR '']'' # rest) [] = Some (JArr ([] @ xs), rest)"
      using "9.prems"(1) Cons by (intro "9.IH" ss m) simp_all
    have hd: "join '','' ss @ CHR '']'' # rest = c # (r' @ CHR '']'' # rest)"
      unfolding j by simp
    have "parse_value (Suc m) (CHR ''['' # join '','' ss @ CHR '']'' # rest)
            = parse_elems m (join '','' ss @ CHR '']'' # rest) []"
      using c(2) by (simp add: skip_ws_structural sk) (simp add: hd)
    with pe show ?thesis
      unfolding s n by simp
  qed
next
  case (10 kvs)
  from "10.prems"(2) obtain ss where ss: "ser_members kvs = Some ss"
      and s: "s = CHR ''{'' # join '','' ss @ [CHR ''}'']"
    by (auto split: option.splits)
  from "10.prems"(3) s obtain m where n: "n = Suc m" and m: "2 * length (join '','' ss) + 1 \<le> m"
    by (cases n) auto
  show ?case
  proof (cases kvs)
    case Nil
    with ss have "ss = []" by simp
    then show ?thesis
      unfolding s n Nil by (simp add: skip_ws_structural)
  next
    case (Cons kv kvs')
    obtain k v where kv: "kv = (k, v)" by (cases kv)
    from "10.prems"(1) Cons kv have sv: "json_safe v" by simp
    then have vu: "v \<noteq> JUndefined" by auto
    with ss Cons kv obtain sv' ss' where sss: "ss = (quote k @ '':'' @ sv') # ss'"
      by (auto split: option.splits)
    have "\<exists>r'. join '','' ss = CHR 0x22 # r'"
      unfolding sss by (cases ss') (simp_all add: quote_def)
    then obtain r' where j: "join '','' ss = CHR 0x22 # r'" by blast
    have pm: "parse_members m (join '','' ss @ CHR ''}'' # rest) [] = Some (JObj ([] @ kvs), rest)"
      using "10.prems"(1) Cons by (intro "10.IH" ss m) simp_all
    have hd: "join '','' ss @ CHR ''}'' # rest = CHR 0x22 # (r' @ CHR ''}'' # rest)"
      unfolding j by simp
    have "parse_value (Suc m) (CHR ''{'' # join '','' ss @ CHR ''}'' # rest)
            = parse_members m (join '','' ss @ CHR ''}'' # rest) []"
      by (simp add: skip_ws_structural) (simp add: hd skip_ws_structural)
    with pm show ?thesis
      unfolding s n by simp
  qed
next
  case 11
  then show ?case by simp
next
  case (12 x xs)
  from "12.prems"(3) obtain s1 ss' where s1: "ser x = Some s1"
      and sxs: "ser_elems xs = Some ss'" and sss: "ss = s1 # ss'"
    by (auto split: option.splits)
  from "12.prems"(1) have safe: "json_safe x" "json_safe_elems xs" by simp_all
  from "12.prems"(4) obtain m where n: "n = Suc m" by (cases n) auto
  show ?case
  proof (cases "xs = []")
    case True
    with sxs have e: "ss' = []" by simp
    have b: "2 * length s1 \<le> m"
      using "12.prems"(4) n sss e by simp
    have pv: "parse_value m (s1 @ CHR '']'' # rest) = Some (x, CHR '']'' # rest)"
      by (rule "12.IH"(1) [OF safe(1) s1 b num_end_structural(2)])
    show ?thesis
      unfolding n sss e True using pv by (simp add: skip_ws_structural)
  next
    case False
    then have ne: "ss' \<noteq> []"
      using ser_elems_length [OF sxs] by auto
    have j: "join '','' ss = s1 @ '','' @ join '','' ss'"
      unfolding sss by (rule join_Cons [OF ne])
    have b: "2 * length s1 \<le> m" and b': "2 * length (join '','' ss') + 1 \<le> m"
      using "12.prems"(4) n j by simp_all
    have pv: "parse_value m (s1 @ CHR '','' # join '','' ss' @ CHR '']'' # rest)
                = Some (x, CHR '','' # join '','' ss' @ CHR '']'' # rest)"
      by (rule "12.IH"(1) [OF safe(1) s1 b num_end_structural(1)])
    have pe: "parse_elems m (join '','' ss' @ CHR '']'' # rest) (acc @ [x])
                = Some (JArr ((acc @ [x]) @ xs), rest)"
      by (rule "12.IH"(2) [OF s1 safe(2) False sxs b'])
    show ?thesis
      unfolding n j using pv pe by (simp add: skip_ws_structural)
  qed
next
  case 13
  then show ?case by simp
next
  case (14 k v kvs)
  from "14.prems"(1) have safe: "json_safe v" "json_safe_members kvs" by simp_all
  then have vu: "v \<noteq> JUndefined" by auto
  with "14.prems"(5) obtain sv ss' where sv: "ser v = Some sv"
      and skvs: "ser_members kvs = Some ss'" and sss: "ss = (quote k @ '':'' @ sv) # ss'"
    by (auto split: option.splits)
  from "14.prems"(4) have fresh: "k \<notin> fst ` set macc" by auto
  have "ordered_keys ((map fst macc @ [k]) @ map fst kvs)"
    using "14.prems"(7) by simp
  then have "ordered_keys (map fst macc @ [k])"
    by (rule ordered_keys_prefix)
  with fresh have upd: "obj_put k v macc = macc @ [(k, v)]"
    by (rule obj_put_fresh)
  from "14.prems"(6) obtain m where n: "n = Suc m" by (cases n) auto
  have key: "parse_str (concat (map esc_char k) @ CHR 0x22 # tl) [] = Some (k, tl)" for tl
    using parse_str_quote [of k tl "[]"] by simp
  show ?case
  proof (cases "kvs = []")
    case True
    with skvs have e: "ss' = []" by simp
    have b: "2 * length sv \<le> m"
      using "14.prems"(6) n sss e by simp
    have pv: "parse_value m (sv @ CHR ''}'' # rest) = Some (v, CHR ''}'' # rest)"
      by (rule "14.IH"(2) [OF vu safe(1) sv b num_end_structural(3)])
    show ?thesis
      unfolding n sss e True using pv key upd
      by (simp add: skip_ws_structural quote_def)
  next
    case False
    then have ne: "ss' \<noteq> []"
      using ser_members_length [OF skvs safe(2)] by auto
    have j: "join '','' ss = (quote k @ '':'' @ sv) @ '','' @ join '','' ss'"
      unfolding sss by (rule join_Cons [OF ne])
    have b: "2 * length sv \<le> m" and b': "2 * length (join '','' ss') + 1 \<le> m"
      using "14.prems"(6) n j by simp_all
    have pv: "parse_value m (sv @ CHR '','' # join '','' ss' @ CHR ''}'' # rest)
                = Some (v, CHR '','' # join '','' ss' @ CHR ''}'' # rest)"
      by (rule "14.IH"(2) [OF vu safe(1) sv b num_end_structural(1)])
    have d: "distinct (map fst kvs)"
      using "14.prems"(3) by simp
    have dj: "fst ` set (macc @ [(k, v)]) \<inter> fst ` set kvs = {}"
      using "14.prems"(3,4) by auto
    have ok: "ordered_keys (map fst ((macc @ [(k, v)]) @ kvs))"
      using "14.prems"(7) by simp
    have pm: "parse_members m (join '','' ss' @ CHR ''}'' # rest) (macc @ [(k, v)])
                = Some (JObj ((macc @ [(k, v)]) @ kvs), rest)"
      by (rule "14.IH"(3) [OF vu sv safe(2) False d dj skvs b' ok])
    show ?thesis
      unfolding n j using pv pm key upd
      by (simp add: skip_ws_structural quote_def)
  qed
qed


lemma ser_safe:
  shows "json_safe v \<Longrightarrow> \<exists>s. ser v = Some s"
    and "json_safe_elems xs \<Longrightarrow> \<exists>ss. ser_elems xs = Some ss"
    and "json_safe_members kvs \<Longrightarrow> \<exists>ss. ser_members kvs = Some ss"
  by (induction v and xs and kvs rule: ser_ser_elems_ser_members.induct) auto

text \<open>
  The codec gives a JSON-safe value back: \<open>JSON.parse(JSON.stringify(v))\<close> is \<open>v\<close> for
  \<open>null\<close>, booleans, integers, strings, and arrays and objects of such values.
\<close>

lemma json_codec_roundtrip:
  assumes "json_safe v"
  shows "\<exists>str. JSON_stringify v = Inr (Some str) \<and> JSON_parse (JStr str) = Inr v"
proof -
  obtain s where s: "ser v = Some s"
    using ser_safe(1) [OF assms] by blast
  have "v \<noteq> JUndefined"
    using assms by auto
  with s have st: "JSON_stringify v = Inr (Some s)"
    by (simp add: JSON_stringify_def)
  have le: "2 * length s \<le> 2 * length s + 2"
    by simp
  have pv: "parse_value (2 * length s + 2) s = Some (v, [])"
    using parse_ser(1) [OF assms s le num_end_structural(4)] unfolding append_Nil2 .
  have "JSON_parse (JStr s) = Inr v"
    unfolding JSON_parse_def parse_text_def to_string.simps pv
    by (simp add: skip_ws_structural)
  with st show ?thesis by blast
qed

section \<open>Round trip of \<open>set\<close> and \<open>get\<close>\<close>

text \<open>
  Claim C2, as the code has it. The codec is \<open>JSON.stringify\<close> and \<open>JSON.parse\<close>, which does
  not give every value back: with a compression threshold of 1, the array \<open>[undefined]\<close>
  is stored as the text \<open>[null]\<close> and read back as \<open>[null]\<close>.
\<close>

theorem roundtrip_lossy_codec:
  "(let cfg = new_config (no_options\<lparr> opt_compressionThreshold := Some 1 \<rparr>);
        v = JArr [JUndefined];
        r = set_op cfg 0 ''k'' v (Some 1000) default_options new_cache
    in fst r = Returns ()
       \<and> compressed (obj (snd r) (the (map_of (l1Cache (snd r)) ''k'')))
       \<and> fst (get_op cfg 0 ''k'' (snd r)) = JArr [JNull]
       \<and> fst (get_op cfg 0 ''k'' (snd r)) \<noteq> v)"
  by code_simp

text \<open>
  Claim C2, amended: for any value \<open>v\<close> and ttl \<open>t\<close>, when \<open>set(k, v, t)\<close> returns, the
  new item is the one a lookup of \<open>k\<close> reaches (it was stored in L1, or L1 holds no item
  for \<open>k\<close>), and, in case the value is encoded, decoding its encoding gives \<open>v\<close> back,
  then a \<open>get(k)\<close> no later than the expiry time returns \<open>v\<close>, compressed or not.
\<close>

theorem set_get_roundtrip:
  assumes "fst (set_op cfg now k v ttl options s) = Returns ()"
      and "target_tier cfg options (check_size cfg now s) = L1
           \<or> map_of (l1Cache (check_size cfg now s)) k = None"
      and "now' \<le> now + or_default ttl (defaultTTL cfg)"
      and "\<And>str. \<lbrakk> enableCompression cfg; opt_compress options \<noteq> Some False;
                    JSON_stringify v = Inr (Some str);
                    compressionThreshold cfg < int (length str) \<rbrakk>
             \<Longrightarrow> JSON_parse (JStr str) = Inr v"
  shows "fst (get_op cfg now' k (snd (set_op cfg now k v ttl options s))) = v"
  using set_then_get [OF assms] by (rule conjunct1)

theorem set_get_roundtrip_witness:
  "(let cfg = new_config (no_options\<lparr> opt_compressionThreshold := Some 1 \<rparr>);
        r = set_op cfg 0 ''k'' (JArr [JNum 1, JNum 2]) (Some 1000) default_options new_cache
    in fst r = Returns ()
       \<and> compressed (obj (snd r) (the (map_of (l1Cache (snd r)) ''k'')))
       \<and> fst (get_op cfg 5 ''k'' (snd r)) = JArr [JNum 1, JNum 2])"
proof -
  let ?cfg = "new_config (no_options\<lparr> opt_compressionThreshold := Some 1 \<rparr>)"
  let ?v = "JArr [JNum 1, JNum 2]"
  let ?r = "set_op ?cfg 0 ''k'' ?v (Some 1000) default_options new_cache"
  have ret: "fst ?r = Returns ()"
    by code_simp
  have tier: "target_tier ?cfg default_options (check_size ?cfg 0 new_cache) = L1
              \<or> map_of (l1Cache (check_size ?cfg 0 new_cache)) ''k'' = None"
    by code_simp
  have live: "5 \<le> 0 + or_default (Some 1000) (defaultTTL ?cfg)"
    by code_simp
  have ser: "JSON_stringify ?v = Inr (Some ''[1,2]'')"
    by code_simp
  have par: "JSON_parse (JStr ''[1,2]'') = Inr ?v"
    by code_simp
  have codec: "JSON_parse (JStr str) = Inr ?v"
    if "enableCompression ?cfg" "opt_compress default_options \<noteq> Some False"
       "JSON_stringify ?v = Inr (Some str)" "compressionThreshold ?cfg < int (length str)"
    for str
  proof -
    from that(3) ser have "str = ''[1,2]''" by (simp only: sum.inject option.inject)
    with par show ?thesis by (simp only:)
  qed
  have enc: "compressed (obj (snd ?r) (the (map_of (l1Cache (snd ?r)) ''k'')))"
    by code_simp
  have rt: "fst (get_op ?cfg 5 ''k'' (snd ?r)) = ?v"
    by (rule set_get_roundtrip [OF ret tier live codec])
  show ?thesis
    unfolding Let_def by (rule conjI [OF ret conjI [OF enc rt]])
qed

text \<open>So \<open>set\<close> followed by \<open>get\<close> returns every JSON-safe value, compressed or not, when
  the new item is the one the lookup reaches and has not expired.\<close>

lemma set_get_roundtrip_json_safe:
  assumes safe: "json_safe v"
      and tier: "target_tier cfg options (check_size cfg now s) = L1
                 \<or> map_of (l1Cache (check_size cfg now s)) k = None"
      and live: "now' \<le> now + or_default ttl (defaultTTL cfg)"
  shows "fst (set_op cfg now k v ttl options s) = Returns ()
         \<and> fst (get_op cfg now' k (snd (set_op cfg now k v ttl options s))) = v"
proof -
  obtain str where ser: "JSON_stringify v = Inr (Some str)"
      and par: "JSON_parse (JStr str) = Inr v"
    using json_codec_roundtrip [OF safe] by blast
  have ret: "fst (set_op cfg now k v ttl options s) = Returns ()"
    by (rule set_op_serializable [OF ser])
  have codec: "JSON_parse (JStr str') = Inr v"
    if "enableCompression cfg" "opt_compress options \<noteq> Some False"
       "JSON_stringify v = Inr (Some str')" "compressionThreshold cfg < int (length str')"
    for str'
  proof -
    have "Inr (Some str') = (Inr (Some str) :: js_error + string option)"
      using that(3) ser by (rule trans [OF sym])
    then have "str' = str" by simp
    with par show ?thesis by simp
  qed
  have "fst (get_op cfg now' k (snd (set_op cfg now k v ttl options s))) = v"
    using set_then_get [OF ret tier live codec] by (rule conjunct1)
  with ret show ?thesis
    by (rule conjI)
qed

section \<open>The size of L1\<close>

lemma evictLRU_l1_length: "length (l1Cache (evictLRU cfg now s)) \<le> length (l1Cache s)"
  by (simp add: evictLRU_def Let_def length_delete_le split: option.splits)

lemma check_size_l1_length: "length (l1Cache (check_size cfg now s)) \<le> length (l1Cache s)"
  by (simp add: check_size_def evictLRU_l1_length)

lemma store_item_l1_length:
  "length (l1Cache (store_item cfg now k cv c ttl options s)) \<le> maxSize cfg
     \<or> length (l1Cache (store_item cfg now k cv c ttl options s)) = length (l1Cache s)"
proof (cases "target_tier cfg options s")
  case L1
  then have "5 * length (l1Cache s) < 4 * maxSize cfg"
    by (simp add: target_tier_def split: if_splits)
  then have "length (l1Cache s) + 1 \<le> maxSize cfg"
    by arith
  moreover have "length (AList.update k (nextAddr s) (l1Cache s)) \<le> length (l1Cache s) + 1"
    by (simp add: length_Map_set)
  ultimately show ?thesis
    using L1 by (simp add: store_item_def Let_def)
next
  case L2
  then show ?thesis
    by (simp add: store_item_def Let_def)
qed

text \<open>\<open>set\<close> keeps L1 within \<open>maxSize\<close>, whether it returns or throws.\<close>

lemma set_op_l1_bound:
  assumes "length (l1Cache s) \<le> maxSize cfg"
  shows "length (l1Cache (snd (set_op cfg now k v ttl options s))) \<le> maxSize cfg"
proof -
  let ?s1 = "check_size cfg now s"
  have b: "length (l1Cache ?s1) \<le> maxSize cfg"
    using check_size_l1_length [of cfg now s] assms by simp
  have st: "length (l1Cache (store_item cfg now k cv c ttl options s')) \<le> maxSize cfg"
    if "length (l1Cache s') \<le> maxSize cfg" for cv c s'
    using store_item_l1_length [of cfg now k cv c ttl options s'] that by auto
  show ?thesis
    using b st
    by (auto simp add: set_op_def Let_def split: sum.splits option.splits)
qed

lemma delete_op_l1_length: "length (l1Cache (snd (delete_op k s))) \<le> length (l1Cache s)"
  by (simp add: delete_op_def Let_def length_delete_le)

text \<open>The operations that only remove from L1.\<close>

lemma fold_delete_length: "length (fold AList.delete ks m) \<le> length m"
proof (induction ks arbitrary: m)
  case Nil
  then show ?case by simp
next
  case (Cons k ks)
  have "length (fold AList.delete ks (AList.delete k m)) \<le> length (AList.delete k m)"
    by (rule Cons.IH)
  also have "\<dots> \<le> length m"
    by (rule length_delete_le)
  finally show ?case by simp
qed

lemma clear_l1_length: "length (l1Cache (clear s)) \<le> length (l1Cache s)"
  by (simp add: clear_def)

lemma invalidatePattern_l1_length:
  "length (l1Cache (snd (invalidatePattern compile pattern s))) \<le> length (l1Cache s)"
  by (simp add: invalidatePattern_def Let_def split: option.splits)

lemma invalidateByTags_l1_length:
  "length (l1Cache (snd (invalidateByTags ts s))) \<le> length (l1Cache s)"
  by (simp add: invalidateByTags_def Let_def)

lemma cleanup_l1_length: "length (l1Cache (cleanup cfg now s)) \<le> length (l1Cache s)"
proof -
  let ?ks = "map fst (filter (\<lambda>(k, a). isExpired now (obj s a)) (l1Cache s))"
  let ?ks2 = "map fst (filter (\<lambda>(k, a). isExpired now (obj s a)) (l2Cache s))"
  let ?s1 = "s\<lparr> l1Cache := fold AList.delete ?ks (l1Cache s),
                 l2Cache := fold AList.delete ?ks2 (l2Cache s) \<rparr>"
  have a: "length (l1Cache ?s1) \<le> length (l1Cache s)"
    by (simp add: fold_delete_length)
  have b: "length (l1Cache (evictLRU cfg now ?s1)) \<le> length (l1Cache ?s1)"
    by (rule evictLRU_l1_length)
  show ?thesis
    using a b by (simp add: cleanup_def Let_def)
qed

text \<open>The loops of \<open>warmCache\<close> are runs of \<open>set\<close>.\<close>

lemma set_all_l1_bound:
  assumes "length (l1Cache s) \<le> maxSize cfg"
  shows "length (l1Cache (snd (set_all cfg now items s))) \<le> maxSize cfg"
  using assms
proof (induction items arbitrary: s)
  case Nil
  then show ?case by simp
next
  case (Cons i rest)
  let ?r = "set_op cfg now (w_key i) (w_value i) (w_ttl i)
              (case w_options i of None \<Rightarrow> default_options | Some opts \<Rightarrow> opts) s"
  have b: "length (l1Cache (snd ?r)) \<le> maxSize cfg"
    by (rule set_op_l1_bound [OF Cons.prems])
  show ?case
  proof (cases ?r)
    case (Pair r s1)
    with b have b1: "length (l1Cache s1) \<le> maxSize cfg" by simp
    show ?thesis
    proof (cases r)
      case (Returns u)
      with Pair Cons.IH [OF b1] show ?thesis by simp
    next
      case (Throws e)
      with Pair b1 show ?thesis by simp
    qed
  qed
qed

lemma drain_queue_l1_bound:
  assumes "length (l1Cache s) \<le> maxSize cfg"
  shows "length (l1Cache (snd (drain_queue cfg now q s))) \<le> maxSize cfg"
  using assms
proof (induction q arbitrary: s)
  case Nil
  then show ?case by simp
next
  case (Cons i rest)
  let ?s0 = "s\<lparr> warmingQueue := rest \<rparr>"
  let ?r = "set_op cfg now (w_key i) (w_value i) (w_ttl i)
              (case w_options i of None \<Rightarrow> default_options | Some opts \<Rightarrow> opts) ?s0"
  have "length (l1Cache ?s0) \<le> maxSize cfg"
    using Cons.prems by simp
  then have b: "length (l1Cache (snd ?r)) \<le> maxSize cfg"
    by (rule set_op_l1_bound)
  show ?case
  proof (cases ?r)
    case (Pair r s1)
    with b have b1: "length (l1Cache s1) \<le> maxSize cfg" by simp
    show ?thesis
    proof (cases r)
      case (Returns u)
      with Pair Cons.IH [OF b1] show ?thesis by simp
    next
      case (Throws e)
      with Pair b1 show ?thesis by simp
    qed
  qed
qed

lemma warmCache_l1_bound:
  assumes "length (l1Cache s) \<le> maxSize cfg"
  shows "length (l1Cache (snd (warmCache cfg now items s))) \<le> maxSize cfg"
proof (cases "isWarming s")
  case True
  with assms show ?thesis by (simp add: warmCache_def)
next
  case False
  let ?s0 = "s\<lparr> isWarming := True \<rparr>"
  have "length (l1Cache ?s0) \<le> maxSize cfg"
    using assms by simp
  then have b: "length (l1Cache (snd (set_all cfg now items ?s0))) \<le> maxSize cfg"
    by (rule set_all_l1_bound)
  show ?thesis
  proof (cases "set_all cfg now items ?s0")
    case (Pair r s1)
    with b have b1: "length (l1Cache s1) \<le> maxSize cfg" by simp
    show ?thesis
    proof (cases r)
      case (Throws e)
      with Pair False b1 show ?thesis by (simp add: warmCache_def)
    next
      case (Returns u)
      have "length (l1Cache (snd (drain_queue cfg now (warmingQueue s1) s1))) \<le> maxSize cfg"
        by (rule drain_queue_l1_bound [OF b1])
      with Pair False Returns show ?thesis
        by (cases "drain_queue cfg now (warmingQueue s1) s1") (simp add: warmCache_def)
    qed
  qed
qed

text \<open>A lookup makes L1 longer only by a promotion: not when L1 holds the key already.\<close>

lemma get_op_l1_length:
  assumes "map_of (l1Cache s) k \<noteq> None"
  shows "length (l1Cache (snd (get_op cfg now k s))) \<le> length (l1Cache s)"
proof -
  have k: "k \<in> fst ` set (l1Cache s)"
    using assms by (simp add: map_of_eq_None_iff)
  obtain item s1 where p: "probe now k s = (item, s1)"
    by (cases "probe now k s")
  have u: "length (AList.update k a (l1Cache s)) = length (l1Cache s)" for a
    using k by (simp add: length_Map_set)
  have l: "length (l1Cache s1) = length (l1Cache s)"
    using p u by (auto simp add: probe_def Let_def split: if_splits)
  have d: "length (l1Cache (snd (delete_op k s'))) \<le> length (l1Cache s')" for s'
    by (rule delete_op_l1_length)
  show ?thesis
    using p l d [of "s1\<lparr> stats := (stats s1)\<lparr> misses := misses (stats s1) + 1 \<rparr> \<rparr>"]
      d [of "s1\<lparr> stats := (stats s1)\<lparr> hits := hits (stats s1) + 1 \<rparr> \<rparr>"]
    by (auto simp add: get_op_def Let_def touch_def split: option.splits sum.splits)
qed

text \<open>A promotion of a key that L1 does not hold makes L1 one longer, whatever its size.\<close>

lemma promotion_grows_L1:
  assumes l1: "map_of (l1Cache s) k = None"
      and l2: "map_of (l2Cache s) k = Some a2"
      and live: "\<not> isExpired now (obj s a2)"
  shows "length (l1Cache (snd (probe now k s))) = length (l1Cache s) + 1"
proof -
  have "k \<notin> fst ` set (l1Cache s)"
    using l1 by (simp add: map_of_eq_None_iff)
  then show ?thesis
    using assms by (simp add: probe_def Let_def length_Map_set)
qed

text \<open>
  Claim C3 on the code, with \<open>maxSize = 1\<close>: two keys are set one millisecond apart (the
  second \<open>set\<close> demotes the first key to L2), then the first key is looked up. The
  promotion puts it back into L1 without a size check, and L1 holds two items.
\<close>

theorem promotion_exceeds_maxSize:
  "(let cfg = new_config (no_options\<lparr> opt_maxSize := Some 1 \<rparr>);
        s1 = snd (set_op cfg 0 ''a'' (JNum 1) None default_options new_cache);
        s2 = snd (set_op cfg 1 ''b'' (JNum 2) None default_options s1);
        res = get_op cfg 2 ''a'' s2
    in maxSize cfg = 1
       \<and> map fst (l1Cache s2) = [''b''] \<and> map fst (l2Cache s2) = [''a'']
       \<and> fst res = JNum 1
       \<and> map fst (l1Cache (snd res)) = [''b'', ''a'']
       \<and> length (l1Cache (snd res)) > maxSize cfg)"
  by code_simp

section \<open>One live item per key\<close>

text \<open>A promotion stores in L1 the address L2 holds: one object, reachable from both
  tiers.\<close>

lemma promotion_shares_object:
  assumes l1: "map_of (l1Cache s) k = None \<or> isExpired now (obj s (the (map_of (l1Cache s) k)))"
      and l2: "map_of (l2Cache s) k = Some a2"
      and live: "\<not> isExpired now (obj s a2)"
  shows "fst (probe now k s) = Some a2
         \<and> map_of (l1Cache (snd (probe now k s))) k = Some a2
         \<and> map_of (l2Cache (snd (probe now k s))) k = Some a2"
  using assms by (auto simp add: probe_def Let_def update_conv')

text \<open>An item that \<open>set\<close> sends to L2 leaves L1 as the size check left it, whatever L1
  holds for the key.\<close>

lemma set_to_L2_keeps_L1:
  assumes "fst (set_op cfg now k v ttl options s) = Returns ()"
      and "target_tier cfg options (check_size cfg now s) = L2"
  shows "l1Cache (snd (set_op cfg now k v ttl options s)) = l1Cache (check_size cfg now s)"
    and "map_of (l2Cache (snd (set_op cfg now k v ttl options s))) k
           = Some (nextAddr (check_size cfg now s))"
  using assms
  by (auto simp add: set_op_def store_item_def Let_def update_conv'
        split: sum.splits option.splits if_splits)

text \<open>
  Claim C4 on the code, with \<open>maxSize = 5\<close>: four keys are set, which fills L1 to 80%,
  and the first key is set again to a new value. The new item goes to L2 and the first
  stays in L1: both tiers hold a live item for the key, two different objects with
  different values, and a lookup returns the older value.
\<close>

theorem set_leaves_two_live_items:
  "(let cfg = new_config (no_options\<lparr> opt_maxSize := Some 5 \<rparr>);
        s1 = snd (set_op cfg 0 ''a'' (JNum 1) None default_options new_cache);
        s2 = snd (set_op cfg 1 ''b'' (JNum 2) None default_options s1);
        s3 = snd (set_op cfg 2 ''c'' (JNum 3) None default_options s2);
        s4 = snd (set_op cfg 3 ''d'' (JNum 4) None default_options s3);
        s5 = snd (set_op cfg 4 ''a'' (JNum 99) None default_options s4)
    in map fst (l1Cache s4) = [''a'', ''b'', ''c'', ''d'']
       \<and> l2Cache s4 = []
       \<and> map_of (l1Cache s5) ''a'' = Some 0 \<and> map_of (l2Cache s5) ''a'' = Some 4
       \<and> \<not> isExpired 5 (obj s5 0) \<and> \<not> isExpired 5 (obj s5 4)
       \<and> val (obj s5 0) = JNum 1 \<and> val (obj s5 4) = JNum 99
       \<and> fst (get_op cfg 5 ''a'' s5) = JNum 1)"
  by code_simp

section \<open>Decoding failure in \<open>get\<close>\<close>

text \<open>
  What \<open>get(k)\<close> does when it finds an unexpired item marked compressed whose decoding
  fails: it returns \<open>null\<close> (no error reaches the caller: the result is a value), \<open>k\<close> is
  deleted from both tiers and the deletion is counted; the lookup was counted in \<open>hits\<close>
  before decoding, and \<open>misses\<close> is unchanged.
\<close>

lemma get_decode_failure:
  assumes found: "fst (probe now k s) = Some a"
      and live: "\<not> isExpired now (obj s a)"
      and comp: "compressed (obj s a)"
      and en: "enableCompression cfg"
      and fail: "decompress (val (obj s a)) = Inl e"
  shows "fst (get_op cfg now k s) = JNull
         \<and> map_of (l1Cache (snd (get_op cfg now k s))) k = None
         \<and> map_of (l2Cache (snd (get_op cfg now k s))) k = None
         \<and> hits (stats (snd (get_op cfg now k s))) = hits (stats s) + 1
         \<and> misses (stats (snd (get_op cfg now k s))) = misses (stats s)
         \<and> deletes (stats (snd (get_op cfg now k s))) = deletes (stats s) + 1"
proof -
  obtain s1 where p: "probe now k s = (Some a, s1)"
    using found by (cases "probe now k s") simp
  have h: "heap s1 = heap s" and st: "stats s1 = stats s"
    using probe_heap [of now k s] probe_stats [of now k s] p by simp_all
  have o: "obj s1 a = obj s a"
    using h by (simp add: obj_def)
  have inl1: "map_of (l1Cache s1) k = Some a"
    using probe_live_in_l1 [OF found live] p by simp
  let ?s2 = "s1\<lparr> stats := (stats s1)\<lparr> hits := hits (stats s1) + 1 \<rparr> \<rparr>"
  have g: "get_op cfg now k s = (JNull, snd (delete_op k ?s2))"
    using p live comp en fail o by (simp add: get_op_def Let_def obj_def)
  show ?thesis
    unfolding g using inl1 st
    by (simp add: delete_op_absent delete_op_stats)
qed

text \<open>
  The state \<open>undecodable_cache\<close> differs from the one that \<open>set('k', v, 1000)\<close> leaves
  for a string \<open>v\<close> of 1100 characters only in the value of the item, where it has what
  \<open>compress\<close> returned.
\<close>

lemma undecodable_cache_provenance:
  "(let cfg = new_config no_options;
        s = snd (set_op cfg 0 ''k'' (JStr (replicate 1100 (CHR ''x''))) (Some 1000)
                  default_options new_cache)
    in l1Cache s = l1Cache undecodable_cache
       \<and> l2Cache s = l2Cache undecodable_cache
       \<and> nextAddr s = nextAddr undecodable_cache
       \<and> stats s = stats undecodable_cache
       \<and> warmingQueue s = warmingQueue undecodable_cache
       \<and> isWarming s = isWarming undecodable_cache
       \<and> compressed (obj s 0)
       \<and> (obj s 0)\<lparr> val := JUndefined \<rparr> = obj undecodable_cache 0)"
  by code_simp

text \<open>
  Claim C5: when \<open>get(k)\<close> finds an unexpired item marked compressed and the decode step
  fails, it returns \<open>null\<close>, removes \<open>k\<close> from both tiers, counts the lookup as a miss and
  not as a hit, and propagates no error. On the item that cannot be decoded,
  \<open>JSON.parse(undefined)\<close> throws, the lookup returns \<open>null\<close> and removes the key as
  claimed, but it is counted as a hit and not as a miss, whereas the lookup of an absent
  key, with the same result, is counted as a miss.
\<close>

theorem decode_failure_counted_as_hit:
  "(let cfg = new_config no_options;
        res = get_op cfg 5 ''k'' undecodable_cache;
        absent = get_op cfg 5 ''z'' undecodable_cache
    in fst (probe 5 ''k'' undecodable_cache) = Some 0
       \<and> \<not> isExpired 5 (obj undecodable_cache 0)
       \<and> compressed (obj undecodable_cache 0)
       \<and> decompress (val (obj undecodable_cache 0)) = Inl SyntaxError
       \<and> fst res = JNull
       \<and> map_of (l1Cache (snd res)) ''k'' = None
       \<and> map_of (l2Cache (snd res)) ''k'' = None
       \<and> hits (stats undecodable_cache) = 0 \<and> misses (stats undecodable_cache) = 0
       \<and> hits (stats (snd res)) = 1
       \<and> misses (stats (snd res)) = 0
       \<and> deletes (stats (snd res)) = 1
       \<and> fst absent = JNull
       \<and> hits (stats (snd absent)) = 0
       \<and> misses (stats (snd absent)) = 1)"
  by code_simp

section \<open>Serialization failure in \<open>set\<close>\<close>

text \<open>When \<open>set\<close> throws: exactly when it has to compute the serialized size and
  \<open>JSON.stringify\<close> throws or returns \<open>undefined\<close>. Nothing is stored then.\<close>

lemma set_op_throws:
  assumes "enableCompression cfg" and "opt_compress options \<noteq> Some False"
      and "JSON_stringify v = Inl e \<or> (JSON_stringify v = Inr None \<and> e = TypeError)"
  shows "set_op cfg now k v ttl options s = (Throws e, check_size cfg now s)"
  using assms by (auto simp add: set_op_def Let_def)

lemma set_op_returns_iff:
  "fst (set_op cfg now k v ttl options s) = Returns ()
     \<longleftrightarrow> (enableCompression cfg \<and> opt_compress options \<noteq> Some False
            \<longrightarrow> (\<exists>str. JSON_stringify v = Inr (Some str)))"
  by (auto simp add: set_op_def Let_def split: sum.splits option.splits)

text \<open>
  Claim C6 on the code, with compression enabled (the default): \<open>set(k, undefined)\<close> and
  \<open>set(k, 10n)\<close> leave by a \<open>TypeError\<close> and store nothing, because the serialized size
  is computed before the \<open>try\<close> block is entered.
\<close>

theorem set_propagates_serialization_failure:
  "(let cfg = new_config (no_options\<lparr> opt_maxSize := Some 10 \<rparr>);
        r1 = set_op cfg 0 ''k'' JUndefined None default_options new_cache;
        r2 = set_op cfg 0 ''k'' (JBigInt 10) None default_options new_cache
    in enableCompression cfg
       \<and> fst r1 = Throws TypeError \<and> l1Cache (snd r1) = [] \<and> l2Cache (snd r1) = []
       \<and> sets (stats (snd r1)) = 0
       \<and> fst r2 = Throws TypeError \<and> l1Cache (snd r2) = [] \<and> l2Cache (snd r2) = []
       \<and> sets (stats (snd r2)) = 0)"
  by code_simp

section \<open>\<open>clear\<close>\<close>

lemma clear_effect:
  "l1Cache (clear s) = [] \<and> l2Cache (clear s) = []
   \<and> hits (stats (clear s)) = hits (stats s)
   \<and> misses (stats (clear s)) = misses (stats s)
   \<and> sets (stats (clear s)) = sets (stats s)
   \<and> deletes (stats (clear s)) = deletes (stats s) + sets (stats s)"
  by (simp add: clear_def)

text \<open>
  Claim C7 on the code: one key is set twice and the cache is cleared. One item was
  present, and \<open>deletes\<close> grows by 2, the value of \<open>sets\<close>.
\<close>

theorem clear_adds_sets_to_deletes:
  "(let cfg = new_config (no_options\<lparr> opt_maxSize := Some 10 \<rparr>);
        s1 = snd (set_op cfg 0 ''a'' (JNum 1) None default_options new_cache);
        s2 = snd (set_op cfg 1 ''a'' (JNum 2) None default_options s1);
        s3 = clear s2
    in length (l1Cache s2) + length (l2Cache s2) = 1
       \<and> l1Cache s3 = [] \<and> l2Cache s3 = []
       \<and> deletes (stats s3) = deletes (stats s2) + 2
       \<and> sets (stats s2) = 2)"
  by code_simp

section \<open>Eviction\<close>

text \<open>
  The running pair of the scan, from any start: the time never grows and ends below
  every item seen; the key is the start's, or that of an item seen whose access time is
  the final time, strictly below the start's.
\<close>

lemma lru_fold:
  assumes "fold (\<lambda>(k, a) (lruKey, lruTime).
                   if lastAccessed (obj s a) < lruTime
                   then (Some k, lastAccessed (obj s a))
                   else (lruKey, lruTime)) xs (lk, lt) = (rk, rt)"
  shows "rt \<le> lt
         \<and> (\<forall>(k, a) \<in> set xs. rt \<le> lastAccessed (obj s a))
         \<and> ((rk = lk \<and> rt = lt)
            \<or> (\<exists>k a. (k, a) \<in> set xs \<and> rk = Some k \<and> lastAccessed (obj s a) = rt \<and> rt < lt))"
  using assms
proof (induction xs arbitrary: lk lt)
  case Nil
  then show ?case by simp
next
  case (Cons x xs)
  obtain k a where x: "x = (k, a)" by (cases x)
  show ?case
  proof (cases "lastAccessed (obj s a) < lt")
    case True
    with Cons.prems x
    have "fold (\<lambda>(k, a) (lruKey, lruTime).
                   if lastAccessed (obj s a) < lruTime
                   then (Some k, lastAccessed (obj s a))
                   else (lruKey, lruTime)) xs (Some k, lastAccessed (obj s a)) = (rk, rt)"
      by simp
    from Cons.IH [OF this] True x show ?thesis
      by (auto simp add: order.strict_trans1)
  next
    case False
    with Cons.prems x
    have "fold (\<lambda>(k, a) (lruKey, lruTime).
                   if lastAccessed (obj s a) < lruTime
                   then (Some k, lastAccessed (obj s a))
                   else (lruKey, lruTime)) xs (lk, lt) = (rk, rt)"
      by simp
    from Cons.IH [OF this] False x show ?thesis
      by auto
  qed
qed

text \<open>A key found by the scan is that of an L1 item accessed before \<open>now\<close> and no later
  than any other L1 item.\<close>

lemma lru_scan_Some:
  assumes "lru_scan s now = (Some k, t)"
  shows "\<exists>a. (k, a) \<in> set (l1Cache s) \<and> lastAccessed (obj s a) = t \<and> t < now
             \<and> (\<forall>(k', a') \<in> set (l1Cache s). t \<le> lastAccessed (obj s a'))"
  using lru_fold [OF assms [unfolded lru_scan_def]] by auto

text \<open>The scan finds no key exactly when no L1 item was accessed before \<open>now\<close>.\<close>

lemma lru_scan_None:
  "fst (lru_scan s now) = None
     \<longleftrightarrow> (\<forall>(k, a) \<in> set (l1Cache s). now \<le> lastAccessed (obj s a))"
proof
  assume n: "fst (lru_scan s now) = None"
  obtain t where "lru_scan s now = (None, t)"
    using n by (cases "lru_scan s now") simp
  from lru_fold [OF this [unfolded lru_scan_def]]
  show "\<forall>(k, a) \<in> set (l1Cache s). now \<le> lastAccessed (obj s a)"
    by auto
next
  assume all: "\<forall>(k, a) \<in> set (l1Cache s). now \<le> lastAccessed (obj s a)"
  show "fst (lru_scan s now) = None"
  proof (cases "lru_scan s now")
    case (Pair rk t)
    show ?thesis
    proof (cases rk)
      case None
      with Pair show ?thesis by simp
    next
      case (Some k)
      with Pair lru_scan_Some [of s now k t] all show ?thesis
        by fastforce
    qed
  qed
qed

text \<open>When nothing is evicted: L1 is empty, or no item was accessed before \<open>now\<close>, or the
  key found is the empty string.\<close>

lemma evictLRU_noop:
  assumes "l1Cache s = [] \<or> fst (lru_scan s now) = None \<or> fst (lru_scan s now) = Some []"
  shows "evictLRU cfg now s = s"
  using assms by (auto simp add: evictLRU_def)

text \<open>
  Otherwise the key found leaves L1, and a copy of its item with level \<open>L2\<close> enters L2
  exactly when L2 has fewer than \<open>maxSize\<close> items.
\<close>

lemma evictLRU_effect:
  assumes scan: "lru_scan s now = (Some k, t)" and key: "k \<noteq> []"
  shows "l1Cache (evictLRU cfg now s) = AList.delete k (l1Cache s)"
    and "length (l2Cache s) < maxSize cfg \<Longrightarrow>
           l2Cache (evictLRU cfg now s) = AList.update k (nextAddr s) (l2Cache s)
           \<and> heap (evictLRU cfg now s) (nextAddr s)
               = Some ((obj s (the (map_of (l1Cache s) k)))\<lparr> level := L2 \<rparr>)"
    and "\<not> length (l2Cache s) < maxSize cfg \<Longrightarrow>
           l2Cache (evictLRU cfg now s) = l2Cache s \<and> heap (evictLRU cfg now s) = heap s"
proof -
  have ne: "l1Cache s \<noteq> []"
    using lru_scan_Some [OF scan] by auto
  show "l1Cache (evictLRU cfg now s) = AList.delete k (l1Cache s)"
    using ne scan key by (simp add: evictLRU_def Let_def)
  show "length (l2Cache s) < maxSize cfg \<Longrightarrow>
           l2Cache (evictLRU cfg now s) = AList.update k (nextAddr s) (l2Cache s)
           \<and> heap (evictLRU cfg now s) (nextAddr s)
               = Some ((obj s (the (map_of (l1Cache s) k)))\<lparr> level := L2 \<rparr>)"
    using ne scan key by (simp add: evictLRU_def Let_def)
  show "\<not> length (l2Cache s) < maxSize cfg \<Longrightarrow>
           l2Cache (evictLRU cfg now s) = l2Cache s \<and> heap (evictLRU cfg now s) = heap s"
    using ne scan key by (simp add: evictLRU_def Let_def)
qed

text \<open>With distinct keys, the item that leaves L1 is one with the smallest access time.\<close>

lemma evictLRU_takes_least_recent:
  assumes scan: "lru_scan s now = (Some k, t)"
      and dist: "distinct (map fst (l1Cache s))"
  shows "lastAccessed (obj s (the (map_of (l1Cache s) k))) = t
         \<and> (\<forall>(k', a') \<in> set (l1Cache s). t \<le> lastAccessed (obj s a'))"
proof -
  obtain a where a: "(k, a) \<in> set (l1Cache s)" "lastAccessed (obj s a) = t"
      and least: "\<forall>(k', a') \<in> set (l1Cache s). t \<le> lastAccessed (obj s a')"
    using lru_scan_Some [OF scan] by blast
  have "map_of (l1Cache s) k = Some a"
    using a(1) dist by simp
  with a(2) least show ?thesis by simp
qed

text \<open>With \<open>maxSize = 2\<close> and three keys set one millisecond apart, the third \<open>set\<close>
  evicts the first key, and L1 holds two items.\<close>

lemma three_sets_one_eviction:
  "(let cfg = new_config (no_options\<lparr> opt_maxSize := Some 2 \<rparr>);
        s1 = snd (set_op cfg 0 ''a'' (JNum 1) None default_options new_cache);
        s2 = snd (set_op cfg 1 ''b'' (JNum 2) None default_options s1);
        s3 = snd (set_op cfg 2 ''c'' (JNum 3) None default_options s2)
    in map fst (l1Cache s2) = [''a'', ''b'']
       \<and> map fst (l1Cache (evictLRU cfg 2 s2)) = [''b'']
       \<and> map fst (l2Cache (evictLRU cfg 2 s2)) = [''a'']
       \<and> map fst (l1Cache s3) = [''b'', ''c'']
       \<and> map fst (l2Cache s3) = [''a''])"
  by code_simp

text \<open>
  Claim C8 on the code, with \<open>maxSize = 2\<close>: three distinct keys are set within the same
  millisecond. At the third \<open>set\<close> L1 is full, and \<open>evictLRU\<close> does nothing although L1
  is not empty: no item was accessed strictly before the current reading of the clock.
  The third item goes to L2 and nothing was evicted.
\<close>

theorem evictLRU_noop_on_full_L1:
  "(let cfg = new_config (no_options\<lparr> opt_maxSize := Some 2 \<rparr>);
        s1 = snd (set_op cfg 0 ''a'' (JNum 1) None default_options new_cache);
        s2 = snd (set_op cfg 0 ''b'' (JNum 2) None default_options s1);
        s3 = snd (set_op cfg 0 ''c'' (JNum 3) None default_options s2)
    in map fst (l1Cache s2) = [''a'', ''b''] \<and> length (l1Cache s2) \<ge> maxSize cfg
       \<and> fst (lru_scan s2 0) = None
       \<and> l1Cache (evictLRU cfg 0 s2) = l1Cache s2
       \<and> l2Cache (evictLRU cfg 0 s2) = l2Cache s2
       \<and> map fst (l1Cache s3) = [''a'', ''b'']
       \<and> map fst (l2Cache s3) = [''c''])"
  by code_simp

section \<open>The hit rate\<close>

lemma dec_int_0: "dec_int 0 = ''0''"
  by (simp add: dec_int_def dec_digits.simps digit_char_def)

lemma number_text_0: "number_text 0 0 = ''0''"
  by (simp add: number_text_def dec_int_0)

subsection \<open>The error of the double computation\<close>

text \<open>The number of binary digits brackets a positive integer between powers of two.\<close>

lemma blen_bounds:
  assumes "0 < p"
  shows "2 ^ (blen p - 1) \<le> p \<and> p < 2 ^ blen p"
  using assms
proof (induction p rule: blen.induct)
  case (1 n)
  show ?case
  proof (cases "n = 1")
    case True
    then show ?thesis by (simp add: blen.simps)
  next
    case False
    with "1.prems" have h: "0 < n div 2" by simp
    have n0: "\<not> n \<le> 0" using "1.prems" by simp
    from "1.IH" [OF n0 h]
    have lo: "2 ^ (blen (n div 2) - 1) \<le> n div 2" and hi: "n div 2 < 2 ^ blen (n div 2)"
      by simp_all
    have b: "blen n = Suc (blen (n div 2))"
      using n0 by (subst blen.simps) simp
    have pos: "0 < blen (n div 2)"
      using h by (subst blen.simps) simp
    then have e: "(2::int) ^ blen (n div 2) = 2 * 2 ^ (blen (n div 2) - 1)"
      by (cases "blen (n div 2)") simp_all
    have "2 * 2 ^ (blen (n div 2) - 1) \<le> n"
      using lo by simp
    moreover have "n < 2 * 2 ^ blen (n div 2)"
      using hi by simp
    ultimately show ?thesis
      unfolding b using e by simp
  qed
qed

text \<open>\<open>floor_log2\<close> does not overshoot: \<open>2^r \<le> p / q\<close>.\<close>

lemma floor_log2_lower:
  assumes "0 < p" and "0 < q" and "int c \<le> floor_log2 p q"
  shows "q * 2 ^ c \<le> p"
proof -
  define k where "k = int (blen p) - int (blen q)"
  define r where "r = floor_log2 p q"
  have pb: "2 ^ (blen p - 1) \<le> p" and qb: "q < 2 ^ blen q"
    using blen_bounds [OF assms(1)] blen_bounds [OF assms(2)] by simp_all
  have bp: "0 < blen p"
    using assms(1) by (subst blen.simps) simp
  have r0: "0 \<le> r" using assms(3) by (simp add: r_def)
  define T where "T \<longleftrightarrow> (if 0 \<le> k then q * 2 ^ nat k \<le> p else q \<le> p * 2 ^ nat (- k))"
  have fl: "r = (if T then k else k - 1)"
    unfolding r_def floor_log2_def Let_def k_def T_def ..
  have "q * 2 ^ nat r \<le> p"
  proof (cases T)
    case True
    with fl have rk: "r = k" by simp
    from True r0 show ?thesis unfolding rk T_def by simp
  next
    case False
    with fl have rk: "r = k - 1" by simp
    with r0 have k1: "1 \<le> k" by simp
    then have "blen q + nat r = blen p - 1"
      using rk by (simp add: k_def)
    then have "(2::int) ^ blen q * 2 ^ nat r = 2 ^ (blen p - 1)"
      by (simp add: power_add [symmetric])
    moreover have "q * 2 ^ nat r \<le> 2 ^ blen q * 2 ^ nat r"
      using qb by (simp add: mult_right_mono)
    ultimately show ?thesis using pb by simp
  qed
  moreover have "c \<le> nat r" using assms(3) by (simp add: r_def)
  then have "(2::int) ^ c \<le> 2 ^ nat r" by (simp add: power_increasing)
  then have "q * 2 ^ c \<le> q * 2 ^ nat r"
    using assms(2) by (simp add: mult_left_mono)
  ultimately show ?thesis by simp
qed

lemma floor_log2_less:
  assumes "0 < p" and "0 < q" and "p < q * 2 ^ c"
  shows "floor_log2 p q < int c"
proof (rule ccontr)
  assume "\<not> floor_log2 p q < int c"
  then have "int c \<le> floor_log2 p q" by simp
  from floor_log2_lower [OF assms(1,2) this] assms(3) show False by simp
qed

lemma round_half_even_error:
  assumes "0 < q"
  shows "2 * \<bar>round_half_even p q * q - p\<bar> \<le> q"
proof -
  define f where "f = p div q"
  define r where "r = p mod q"
  have p: "p = f * q + r"
    by (simp add: f_def r_def)
  have r: "0 \<le> r" "r < q"
    using assms by (simp_all add: r_def)
  have "round_half_even p q = f \<and> 2 * r \<le> q \<or> round_half_even p q = f + 1 \<and> q \<le> 2 * r"
    unfolding round_half_even_def Let_def f_def [symmetric] r_def [symmetric]
    by auto
  then show ?thesis
  proof
    assume a: "round_half_even p q = f \<and> 2 * r \<le> q"
    then have "round_half_even p q * q - p = - r"
      using p by simp
    with a r show ?thesis by simp
  next
    assume a: "round_half_even p q = f + 1 \<and> q \<le> 2 * r"
    then have "round_half_even p q * q - p = q - r"
      using p by (simp add: algebra_simps)
    with a r show ?thesis by simp
  qed
qed

text \<open>Rounding a fraction below \<open>2^c\<close> (\<open>c \<le> 52\<close>): the exponent is at most \<open>c - 53\<close>,
  and the mantissa is within one half of the scaled fraction.\<close>

lemma nearest_double_error:
  assumes "0 < p" and "0 < q" and "p < q * 2 ^ c" and "c \<le> 52"
  shows "\<exists>m j. nearest_double p q = Some (m, - int j) \<and> 53 \<le> j + c
               \<and> 2 * \<bar>m * q - p * 2 ^ j\<bar> \<le> q"
proof -
  define e where "e = max (floor_log2 p q - 52) (- 1074)"
  have "floor_log2 p q < int c"
    by (rule floor_log2_less [OF assms(1-3)])
  then have e: "e \<le> int c - 53" "e < 0"
    using assms(4) by (simp_all add: e_def)
  define j where "j = nat (- e)"
  have ej: "e = - int j"
    using e(2) by (simp add: j_def)
  have j: "53 \<le> j + c"
    using e(1) by (simp add: j_def)
  have nd: "nearest_double p q = Some (round_half_even (p * 2 ^ j) q, - int j)"
    using assms(1) e(2) unfolding nearest_double_def Let_def e_def [symmetric] j_def [symmetric]
    by (simp add: ej)
  have "2 * \<bar>round_half_even (p * 2 ^ j) q * q - p * 2 ^ j\<bar> \<le> q"
    by (rule round_half_even_error [OF assms(2)])
  with nd j show ?thesis by blast
qed

lemma toFixed2_bounds:
  assumes "0 < i"
  shows "\<exists>N. toFixed2 (m, - int i) = fixed2 N \<and> 2 * \<bar>N * 2 ^ i - 100 * m\<bar> \<le> 2 ^ i"
proof -
  define P :: int where "P = 2 ^ i"
  define N where "N = (200 * m + P) div (2 * P)"
  have P: "0 < P" by (simp add: P_def)
  have af: "as_fraction (m, - int i) = (m, P)"
    using assms by (simp add: as_fraction_def P_def)
  have t: "toFixed2 (m, - int i) = fixed2 N"
    by (simp add: toFixed2_def af N_def)
  have r: "200 * m + P = N * (2 * P) + (200 * m + P) mod (2 * P)"
    unfolding N_def by (rule div_mult_mod_eq [symmetric])
  have "0 \<le> (200 * m + P) mod (2 * P)" and "(200 * m + P) mod (2 * P) < 2 * P"
    using P by simp_all
  with r have "N * (2 * P) \<le> 200 * m + P" and "200 * m + P < N * (2 * P) + 2 * P"
    by linarith+
  then have "2 * (N * P - 100 * m) \<le> P" and "2 * - (N * P - 100 * m) \<le> P"
    by (simp_all add: algebra_simps)
  then have "2 * \<bar>N * P - 100 * m\<bar> \<le> P"
    by (simp only: abs_if split: if_splits) simp
  with t show ?thesis
    unfolding P_def by blast
qed

text \<open>
  The hundredths that \<open>getStats\<close> prints are less than one hundredth away from the
  exact percentage \<open>100 * h / t\<close>.
\<close>

lemma percent_text_bound_pos:
  assumes h: "0 < h" and ht: "h \<le> t" and t: "t < 9007199254740992"
  shows "\<exists>N. percent_text h t = fixed2 N \<and> \<bar>N * int t - 10000 * int h\<bar> < int t"
proof -
  define H where "H = int h"
  define T where "T = int t"
  have H: "0 < H" "H \<le> T" and T: "0 < T" "T < 9007199254740992"
    using h ht t by (simp_all add: H_def T_def)
  have "H < T * 2 ^ 1" using H T by simp
  from nearest_double_error [OF H(1) T(1) this]
  obtain m1 j where nd1: "nearest_double H T = Some (m1, - int j)"
      and j: "52 \<le> j" and e1: "2 * \<bar>m1 * T - H * 2 ^ j\<bar> \<le> T"
    by auto
  define Q :: int where "Q = 2 ^ j"
  have "(2::int) ^ 52 \<le> 2 ^ j"
    using j by (intro power_increasing) simp_all
  then have Q: "4503599627370496 \<le> Q" by (simp add: Q_def)
  have e1': "2 * \<bar>m1 * T - H * Q\<bar> \<le> T"
    using e1 by (simp add: Q_def)
  define X where "X = m1 * T"
  define Y where "Y = H * Q"
  have xy: "2 * \<bar>X - Y\<bar> \<le> T"
    using e1' by (simp add: X_def Y_def)
  have y1: "Q \<le> Y"
    unfolding Y_def using H(1) Q mult_right_mono [of 1 H Q] by simp
  have y2: "Y \<le> T * Q"
    unfolding Y_def using H(2) Q by (intro mult_right_mono) simp_all
  have m1: "0 < m1"
  proof (rule ccontr)
    assume "\<not> 0 < m1"
    then have "X \<le> 0"
      unfolding X_def using T(1) by (simp add: mult_le_0_iff)
    with xy y1 have "2 * Q \<le> T" by arith
    with Q T(2) show False by simp
  qed
  have m1Q: "m1 \<le> Q"
  proof (rule ccontr)
    assume "\<not> m1 \<le> Q"
    then have "Q + 1 \<le> m1" by simp
    then have "(Q + 1) * T \<le> m1 * T"
      using T(1) by (intro mult_right_mono) simp_all
    then have "T * Q + T \<le> X"
      by (simp add: X_def algebra_simps)
    with xy y2 T(1) show False by arith
  qed
  have dd: "double_div (int h, 0) (int t, 0) = Some (m1, - int j)"
    using nd1 by (simp add: double_div_def as_fraction_def H_def T_def)
  have jp: "0 < j" using j by simp
  have dm: "double_mul (m1, - int j) (100, 0) = nearest_double (m1 * 100) Q"
    using jp by (simp add: double_mul_def as_fraction_def Q_def)
  have p2: "0 < m1 * 100" using m1 by simp
  have q2: "0 < Q" using Q by simp
  have "m1 * 100 < Q * 2 ^ 7"
    using m1Q q2 by simp
  from nearest_double_error [OF p2 q2 this]
  obtain m2 i where nd2: "nearest_double (m1 * 100) Q = Some (m2, - int i)"
      and i: "46 \<le> i" and e2: "2 * \<bar>m2 * Q - m1 * 100 * 2 ^ i\<bar> \<le> Q"
    by auto
  define P :: int where "P = 2 ^ i"
  have "(2::int) ^ 46 \<le> 2 ^ i"
    using i by (intro power_increasing) simp_all
  then have P: "70368744177664 \<le> P" by (simp add: P_def)
  have e2': "2 * \<bar>m2 * Q - 100 * m1 * P\<bar> \<le> Q"
    using e2 by (simp add: P_def mult.commute mult.left_commute)
  have ip: "0 < i" using i by simp
  obtain N where tf: "toFixed2 (m2, - int i) = fixed2 N"
      and e3: "2 * \<bar>N * P - 100 * m2\<bar> \<le> P"
    using toFixed2_bounds [OF ip, of m2] unfolding P_def by blast
  have pt: "percent_text h t = fixed2 N"
    by (simp add: percent_text_def dd dm nd2 tf)
  define A where "A = N * P - 100 * m2"
  define B where "B = m2 * Q - 100 * m1 * P"
  define C where "C = m1 * T - H * Q"
  define D where "D = N * T - 10000 * H"
  have a: "2 * \<bar>A\<bar> \<le> P" and b: "2 * \<bar>B\<bar> \<le> Q" and c: "2 * \<bar>C\<bar> \<le> T"
    using e3 e2' e1' by (simp_all add: A_def B_def C_def)
  have id: "P * Q * D = T * Q * A + 100 * T * B + 10000 * P * C"
    by (simp add: A_def B_def C_def D_def algebra_simps)
  have "\<bar>P * Q * D\<bar> \<le> \<bar>T * Q * A\<bar> + \<bar>100 * T * B\<bar> + \<bar>10000 * P * C\<bar>"
    unfolding id by (intro order_trans [OF abs_triangle_ineq] add_mono abs_triangle_ineq order_refl)
  also have "\<dots> = T * Q * \<bar>A\<bar> + 100 * T * \<bar>B\<bar> + 10000 * P * \<bar>C\<bar>"
    using T(1) q2 P by (simp add: abs_mult)
  finally have "2 * \<bar>P * Q * D\<bar> \<le> T * Q * (2 * \<bar>A\<bar>) + 100 * T * (2 * \<bar>B\<bar>) + 10000 * P * (2 * \<bar>C\<bar>)"
    by simp
  also have "\<dots> \<le> T * Q * P + 100 * T * Q + 10000 * P * T"
    using a b c T(1) q2 P by (intro add_mono mult_left_mono) simp_all
  also have "\<dots> = T * (P * Q + 100 * Q + 10000 * P)"
    by (simp add: algebra_simps)
  finally have le: "2 * \<bar>P * Q * D\<bar> \<le> T * (P * Q + 100 * Q + 10000 * P)" .
  have "200 * Q < P * Q"
    using P q2 by (intro mult_strict_right_mono) simp_all
  moreover have "20000 * P \<le> Q * P"
    using P Q by (intro mult_right_mono) simp_all
  ultimately have "P * Q + 100 * Q + 10000 * P < 2 * (P * Q)"
    by (simp add: mult.commute)
  then have "T * (P * Q + 100 * Q + 10000 * P) < T * (2 * (P * Q))"
    using T(1) by (intro mult_strict_left_mono)
  with le have "2 * \<bar>P * Q * D\<bar> < T * (2 * (P * Q))" by simp
  moreover have "\<bar>P * Q * D\<bar> = (P * Q) * \<bar>D\<bar>"
    using P q2 by (simp add: abs_mult)
  ultimately have "(P * Q) * \<bar>D\<bar> < (P * Q) * T"
    by (simp add: mult.commute)
  moreover have "0 < P * Q" using P q2 by simp
  ultimately have "\<bar>D\<bar> < T"
    by (simp only: mult_less_cancel_left_pos)
  with pt show ?thesis
    unfolding D_def H_def T_def by blast
qed

lemma percent_text_0:
  assumes "0 < t"
  shows "percent_text 0 t = fixed2 0"
proof -
  have "double_div (0, 0) (int t, 0) = Some (0, 0)"
    by (simp add: double_div_def as_fraction_def nearest_double_def)
  moreover have "double_mul (0, 0) (100, 0) = Some (0, 0)"
    by (simp add: double_mul_def as_fraction_def nearest_double_def)
  moreover have "toFixed2 (0, 0) = fixed2 0"
    by (simp add: toFixed2_def as_fraction_def)
  ultimately show ?thesis
    by (simp add: percent_text_def)
qed

lemma percent_text_bound:
  assumes ht: "h \<le> t" and t0: "0 < t" and t: "t < 9007199254740992"
  shows "\<exists>N. percent_text h t = fixed2 N \<and> 0 \<le> N \<and> N \<le> 10000
             \<and> \<bar>N * int t - 10000 * int h\<bar> < int t"
proof -
  obtain N where pt: "percent_text h t = fixed2 N"
      and d: "\<bar>N * int t - 10000 * int h\<bar> < int t"
  proof (cases "h = 0")
    case True
    with t0 have "percent_text h t = fixed2 0 \<and> \<bar>0 * int t - 10000 * int h\<bar> < int t"
      by (simp add: percent_text_0)
    with that show ?thesis by blast
  next
    case False
    then have "0 < h" by simp
    from percent_text_bound_pos [OF this ht t] that show ?thesis by blast
  qed
  define T where "T = int t"
  define X where "X = N * T"
  define Y where "Y = 10000 * int h"
  have T: "0 < T" using t0 by (simp add: T_def)
  have y: "0 \<le> Y" "Y \<le> 10000 * T"
    using ht by (simp_all add: Y_def T_def)
  have "\<bar>X - Y\<bar> < T"
    using d by (simp add: X_def Y_def T_def)
  with y have x: "- 1 * T < X" "X < 10001 * T" by arith+
  have "0 \<le> N"
  proof (rule ccontr)
    assume "\<not> 0 \<le> N"
    then have "N \<le> - 1" by simp
    then have "N * T \<le> - 1 * T"
      using T by (intro mult_right_mono) simp_all
    with x(1) show False by (simp add: X_def)
  qed
  moreover have "N \<le> 10000"
  proof (rule ccontr)
    assume "\<not> N \<le> 10000"
    then have "10001 \<le> N" by simp
    then have "10001 * T \<le> N * T"
      using T by (intro mult_right_mono) simp_all
    with x(2) show False by (simp add: X_def)
  qed
  ultimately show ?thesis
    using pt d by blast
qed


subsection \<open>The reported string\<close>

text \<open>The percentage text at some counter values. 3 / 4 and 75 are doubles, and the
  result is exact; 23 / 160 is not one, and the double computation gives 14.37 where
  the exact percentage, 14.375, would be rounded to 14.38.\<close>

lemma percent_text_3_4: "percent_text 3 (3 + 1) = ''75.00''"
  by code_simp

lemma percent_text_23_160: "percent_text 23 (23 + 137) = ''14.37''"
  by code_simp

text \<open>The report's \<open>hitRate\<close> in terms of the counters.\<close>

lemma hitRate_report:
  "hitRate (performance (getStats now s)) = JStr (to_string (hitRate_local (stats s)) @ ''%'')"
  by (simp add: getStats_def Let_def)

lemma hitRate_positive:
  assumes "0 < hits (stats s) + misses (stats s)"
  shows "hitRate (performance (getStats now s))
           = JStr (percent_text (hits (stats s)) (hits (stats s) + misses (stats s)) @ ''%'')"
  using assms unfolding hitRate_report by (simp add: hitRate_local_def)

lemma hitRate_3_1:
  assumes h: "hits (stats s) = 3" and m: "misses (stats s) = 1"
  shows "hitRate (performance (getStats now s)) = JStr ''75.00%''"
proof -
  have p: "0 < hits (stats s) + misses (stats s)"
    unfolding h m by simp
  have "hitRate (performance (getStats now s)) = JStr (percent_text 3 (3 + 1) @ ''%'')"
    using hitRate_positive [OF p] unfolding h m .
  then show ?thesis
    unfolding percent_text_3_4 by simp
qed

lemma hitRate_23_137:
  assumes h: "hits (stats s) = 23" and m: "misses (stats s) = 137"
  shows "hitRate (performance (getStats now s)) = JStr ''14.37%''"
proof -
  have p: "0 < hits (stats s) + misses (stats s)"
    unfolding h m by simp
  have "hitRate (performance (getStats now s)) = JStr (percent_text 23 (23 + 137) @ ''%'')"
    using hitRate_positive [OF p] unfolding h m .
  then show ?thesis
    unfolding percent_text_23_160 by simp
qed

lemma three_hits_one_miss_counters:
  "hits (stats three_hits_one_miss) = 3" "misses (stats three_hits_one_miss) = 1"
  by code_simp+

text \<open>
  Claim C9, as stated, fails on the type of the result: after 3 hits and 1 miss the
  reported \<open>hitRate\<close> is the string \<open>75.00%\<close>, not the number 75.
\<close>

theorem hitRate_is_a_string:
  "hits (stats three_hits_one_miss) = 3
   \<and> misses (stats three_hits_one_miss) = 1
   \<and> hitRate (performance (getStats 5 three_hits_one_miss)) = JStr ''75.00%''
   \<and> hitRate (performance (getStats 5 three_hits_one_miss)) \<noteq> JNum 75"
  using three_hits_one_miss_counters
    hitRate_3_1 [OF three_hits_one_miss_counters, of 5]
  by simp

lemma hitRate_bound:
  assumes p: "0 < hits (stats s) + misses (stats s)"
      and d: "hits (stats s) + misses (stats s) < 9007199254740992"
  shows "\<exists>N. hitRate (performance (getStats now s)) = JStr (fixed2 N @ ''%'')
             \<and> 0 \<le> N \<and> N \<le> 10000
             \<and> \<bar>N * int (hits (stats s) + misses (stats s)) - 10000 * int (hits (stats s))\<bar>
                 < int (hits (stats s) + misses (stats s))"
proof -
  have le: "hits (stats s) \<le> hits (stats s) + misses (stats s)" by simp
  from percent_text_bound [OF le p d]
  obtain N where "percent_text (hits (stats s)) (hits (stats s) + misses (stats s)) = fixed2 N"
      and "0 \<le> N" and "N \<le> 10000"
      and "\<bar>N * int (hits (stats s) + misses (stats s)) - 10000 * int (hits (stats s))\<bar>
             < int (hits (stats s) + misses (stats s))"
    by blast
  with hitRate_positive [OF p] show ?thesis by auto
qed

text \<open>
  Claim C9, amended: \<open>getStats\<close> reports the hit rate as a string. It is \<open>0%\<close> when
  \<open>hits + misses\<close> is 0. Otherwise it is the text that \<open>toFixed(2)\<close> gives for the double
  \<open>hits / (hits + misses) * 100\<close>, followed by a percent sign: as long as the counters are
  doubles (\<open>hits + misses\<close> below \<open>2^53\<close>), a number of hundredths from 0 to 10000,
  written with two decimals, that is less than one hundredth away from the exact
  percentage. After 3 hits and 1 miss it is the string \<open>75.00%\<close>, and after 23 hits and
  137 misses the string \<open>14.37%\<close>.
\<close>

theorem getStats_hitRate:
  "(hits (stats s) + misses (stats s) = 0
      \<longrightarrow> hitRate (performance (getStats now s)) = JStr ''0%'')
   \<and> (0 < hits (stats s) + misses (stats s)
      \<longrightarrow> hitRate (performance (getStats now s))
            = JStr (percent_text (hits (stats s)) (hits (stats s) + misses (stats s)) @ ''%''))
   \<and> (0 < hits (stats s) + misses (stats s)
        \<and> hits (stats s) + misses (stats s) < 9007199254740992
      \<longrightarrow> (\<exists>N. hitRate (performance (getStats now s)) = JStr (fixed2 N @ ''%'')
                \<and> 0 \<le> N \<and> N \<le> 10000
                \<and> \<bar>N * int (hits (stats s) + misses (stats s)) - 10000 * int (hits (stats s))\<bar>
                    < int (hits (stats s) + misses (stats s))))
   \<and> (hits (stats s) = 3 \<and> misses (stats s) = 1
      \<longrightarrow> hitRate (performance (getStats now s)) = JStr ''75.00%'')
   \<and> (hits (stats s) = 23 \<and> misses (stats s) = 137
      \<longrightarrow> hitRate (performance (getStats now s)) = JStr ''14.37%'')"
proof (intro conjI impI)
  assume "hits (stats s) + misses (stats s) = 0"
  then show "hitRate (performance (getStats now s)) = JStr ''0%''"
    unfolding hitRate_report by (simp add: hitRate_local_def number_text_0)
next
  assume p: "0 < hits (stats s) + misses (stats s)"
  show "hitRate (performance (getStats now s))
      = JStr (percent_text (hits (stats s)) (hits (stats s) + misses (stats s)) @ ''%'')"
    by (rule hitRate_positive [OF p])
next
  assume "0 < hits (stats s) + misses (stats s)
      \<and> hits (stats s) + misses (stats s) < 9007199254740992"
  then have p: "0 < hits (stats s) + misses (stats s)"
    and d: "hits (stats s) + misses (stats s) < 9007199254740992"
    by simp_all
  show "\<exists>N. hitRate (performance (getStats now s)) = JStr (fixed2 N @ ''%'')
            \<and> 0 \<le> N \<and> N \<le> 10000
            \<and> \<bar>N * int (hits (stats s) + misses (stats s)) - 10000 * int (hits (stats s))\<bar>
                < int (hits (stats s) + misses (stats s))"
    by (rule hitRate_bound [OF p d])
next
  assume "hits (stats s) = 3 \<and> misses (stats s) = 1"
  then show "hitRate (performance (getStats now s)) = JStr ''75.00%''"
    using hitRate_3_1 by blast
next
  assume "hits (stats s) = 23 \<and> misses (stats s) = 137"
  then show "hitRate (performance (getStats now s)) = JStr ''14.37%''"
    using hitRate_23_137 by blast
qed

theorem getStats_hitRate_witness:
  "hits (stats three_hits_one_miss) = 3 \<and> misses (stats three_hits_one_miss) = 1
   \<and> hitRate (performance (getStats 5 three_hits_one_miss)) = JStr ''75.00%''
   \<and> hitRate (performance (getStats 5 three_hits_one_miss))
       = JStr (percent_text 3 (3 + 1) @ ''%'')
   \<and> (\<exists>N. hitRate (performance (getStats 5 three_hits_one_miss)) = JStr (fixed2 N @ ''%'')
           \<and> 0 \<le> N \<and> N \<le> 10000
           \<and> \<bar>N * int (3 + 1) - 10000 * int 3\<bar> < int (3 + 1))"
proof -
  have h: "hits (stats three_hits_one_miss) = 3" and m: "misses (stats three_hits_one_miss) = 1"
    by (rule three_hits_one_miss_counters)+
  note t = getStats_hitRate [of three_hits_one_miss 5, unfolded h m]
  have p: "0 < (3::nat) + 1" by simp
  have d: "0 < (3::nat) + 1 \<and> (3::nat) + 1 < 9007199254740992" by simp
  have c: "(3::nat) = 3 \<and> (1::nat) = 1" by simp
  note t2 = mp [OF t [THEN conjunct2, THEN conjunct1] p]
  note t3 = mp [OF t [THEN conjunct2, THEN conjunct2, THEN conjunct1] d]
  note t4 = mp [OF t [THEN conjunct2, THEN conjunct2, THEN conjunct2, THEN conjunct1] c]
  show ?thesis
    by (rule conjI [OF h conjI [OF m conjI [OF t4 conjI [OF t2 t3]]]])
qed

section \<open>Falsy payloads\<close>

text \<open>The four falsy payloads are serializable, and their text parses back to them.\<close>

lemma falsy_codec:
  assumes "v = JNull \<or> v = JNum 0 \<or> v = JStr [] \<or> v = JBool False"
  shows "\<exists>str. JSON_stringify v = Inr (Some str) \<and> JSON_parse (JStr str) = Inr v"
proof -
  have "JSON_stringify JNull = Inr (Some ''null'')"
    and "JSON_parse (JStr ''null'') = Inr JNull"
    and "JSON_stringify (JNum 0) = Inr (Some ''0'')"
    and "JSON_parse (JStr ''0'') = Inr (JNum 0)"
    and "JSON_stringify (JStr []) = Inr (Some [CHR 0x22, CHR 0x22])"
    and "JSON_parse (JStr [CHR 0x22, CHR 0x22]) = Inr (JStr [])"
    and "JSON_stringify (JBool False) = Inr (Some ''false'')"
    and "JSON_parse (JStr ''false'') = Inr (JBool False)"
    by code_simp+
  with assms show ?thesis by blast
qed

text \<open>
  Claim C10, as stated, fails where it equates the result with that of a miss: after
  \<open>set(k, 0)\<close> the lookup returns \<open>0\<close>, a miss returns \<open>null\<close>, and the two differ.
\<close>

theorem falsy_payload_differs_from_miss:
  "(let cfg = new_config (no_options\<lparr> opt_maxSize := Some 10 \<rparr>);
        s1 = snd (set_op cfg 0 ''k'' (JNum 0) None default_options new_cache)
    in fst (get_op cfg 1 ''k'' s1) = JNum 0
       \<and> fst (get_op cfg 1 ''k'' new_cache) = JNull
       \<and> fst (get_op cfg 1 ''k'' s1) \<noteq> fst (get_op cfg 1 ''k'' new_cache))"
  by code_simp

text \<open>
  Claim C10, amended: a stored falsy payload reads as a miss to a caller that tests
  truthiness. For every key \<open>k\<close>, after \<open>set(k, v)\<close> with \<open>v\<close> one of \<open>null\<close>, \<open>0\<close>, the
  empty string or \<open>false\<close> (the call returns), when the new item is the one a lookup
  reaches and has not expired, \<open>get(k)\<close> returns \<open>v\<close> itself, which is falsy (and is the
  miss result only when \<open>v\<close> is \<open>null\<close>), and counts a hit, not a miss. The middleware for
  a request with that key then takes the uncached path: when the handler's payload can be
  stored, the response is marked \<open>MISS\<close>, carries the handler's payload, and the payload
  is stored again under \<open>k\<close>.
\<close>

theorem falsy_payload_reads_as_uncached:
  assumes falsy: "v = JNull \<or> v = JNum 0 \<or> v = JStr [] \<or> v = JBool False"
      and tier: "target_tier cfg options (check_size cfg now s) = L1
                 \<or> map_of (l1Cache (check_size cfg now s)) k = None"
      and live: "now' \<le> now + or_default ttl (defaultTTL cfg)"
      and key: "generateKey (originalUrl req) (query req) = k"
      and payload:
        "fst (set_op cfg (fst handler) k (snd handler) ttl' default_options
                (snd (get_op cfg now' k (snd (set_op cfg now k v ttl options s))))) = Returns ()"
  shows "fst (set_op cfg now k v ttl options s) = Returns ()
       \<and> fst (get_op cfg now' k (snd (set_op cfg now k v ttl options s))) = v
       \<and> \<not> truthy v
       \<and> hits (stats (snd (get_op cfg now' k (snd (set_op cfg now k v ttl options s)))))
           = hits (stats (snd (set_op cfg now k v ttl options s))) + 1
       \<and> misses (stats (snd (get_op cfg now' k (snd (set_op cfg now k v ttl options s)))))
           = misses (stats (snd (set_op cfg now k v ttl options s)))
       \<and> fst (middleware cfg ttl' req now' handler (snd (set_op cfg now k v ttl options s)))
           = Returns \<lparr> x_cache = ''MISS'', body = snd handler \<rparr>
       \<and> snd (middleware cfg ttl' req now' handler (snd (set_op cfg now k v ttl options s)))
           = snd (set_op cfg (fst handler) k (snd handler) ttl' default_options
                   (snd (get_op cfg now' k (snd (set_op cfg now k v ttl options s)))))
       \<and> sets (stats (snd (middleware cfg ttl' req now' handler
                               (snd (set_op cfg now k v ttl options s)))))
           = sets (stats (snd (set_op cfg now k v ttl options s))) + 1"
proof -
  let ?s1 = "snd (set_op cfg now k v ttl options s)"
  let ?g = "get_op cfg now' k ?s1"
  let ?st = "set_op cfg (fst handler) k (snd handler) ttl' default_options (snd ?g)"
  obtain str where ser: "JSON_stringify v = Inr (Some str)"
      and par: "JSON_parse (JStr str) = Inr v"
    using falsy_codec [OF falsy] by blast
  have ret: "fst (set_op cfg now k v ttl options s) = Returns ()"
    by (rule set_op_serializable [OF ser])
  have codec: "JSON_parse (JStr str') = Inr v"
    if "enableCompression cfg" "opt_compress options \<noteq> Some False"
       "JSON_stringify v = Inr (Some str')" "compressionThreshold cfg < int (length str')"
    for str'
    using that(3) ser par by simp
  have g: "fst ?g = v \<and> hits (stats (snd ?g)) = hits (stats s) + 1
           \<and> misses (stats (snd ?g)) = misses (stats s)"
    by (rule set_then_get [OF ret tier live codec])
  have nt: "\<not> truthy v"
    using falsy by auto
  have mw: "middleware cfg ttl' req now' handler ?s1
              = res_json_override cfg ttl' k (fst handler) (snd handler) (snd ?g)"
    using g nt by (simp add: middleware_def Let_def key split_beta)
  have st: "?st = (Returns (), snd ?st)"
    using payload by (cases ?st) simp
  have rj: "res_json_override cfg ttl' k (fst handler) (snd handler) (snd ?g)
              = (Returns \<lparr> x_cache = ''MISS'', body = snd handler \<rparr>, snd ?st)"
    unfolding res_json_override_def by (subst st) simp
  have sets: "sets (stats (snd ?st)) = sets (stats ?s1) + 1"
    using set_op_counters(1) [OF payload] get_op_sets [of cfg now' k ?s1] by simp
  show ?thesis
    using ret g nt set_op_counters(2,3) [OF ret] sets
    unfolding mw rj by simp
qed

theorem falsy_payload_reads_as_uncached_witness:
  "(let cfg = new_config (no_options\<lparr> opt_maxSize := Some 10 \<rparr>);
        s1 = snd (set_op cfg 0 ''/x'' (JNum 0) None default_options new_cache);
        req = \<lparr> originalUrl = ''/x'', query = [] \<rparr>
    in fst (get_op cfg 1 ''/x'' s1) = JNum 0
       \<and> hits (stats (snd (get_op cfg 1 ''/x'' s1))) = hits (stats s1) + 1
       \<and> fst (middleware cfg None req 1 (2, JNum 7) s1)
           = Returns \<lparr> x_cache = ''MISS'', body = JNum 7 \<rparr>
       \<and> sets (stats (snd (middleware cfg None req 1 (2, JNum 7) s1))) = sets (stats s1) + 1)"
proof -
  let ?cfg = "new_config (no_options\<lparr> opt_maxSize := Some 10 \<rparr>)"
  let ?s1 = "snd (set_op ?cfg 0 ''/x'' (JNum 0) None default_options new_cache)"
  let ?req = "\<lparr> originalUrl = ''/x'', query = [] \<rparr>"
  have falsy: "JNum 0 = JNull \<or> JNum 0 = JNum 0 \<or> JNum 0 = JStr [] \<or> JNum 0 = JBool False"
    by simp
  have tier: "target_tier ?cfg default_options (check_size ?cfg 0 new_cache) = L1
              \<or> map_of (l1Cache (check_size ?cfg 0 new_cache)) ''/x'' = None"
    by code_simp
  have live: "1 \<le> 0 + or_default None (defaultTTL ?cfg)"
    by code_simp
  have key: "generateKey (originalUrl ?req) (query ?req) = ''/x''"
    by code_simp
  have payload:
    "fst (set_op ?cfg (fst (2, JNum 7)) ''/x'' (snd (2, JNum 7)) None default_options
            (snd (get_op ?cfg 1 ''/x'' ?s1))) = Returns ()"
    by (rule set_op_serializable [where str = "''7''"]) code_simp
  note t = falsy_payload_reads_as_uncached [OF falsy tier live key payload,
              unfolded fst_conv snd_conv]
  show ?thesis
    unfolding Let_def using t by (elim conjE, intro conjI)
qed

end
